theory Spec2Isabelle
  imports Complex_Main "HOL-Library.Multiset"
begin

section \<open>Sparse matrices as the notebook uses them\<close>

text \<open>
  The notebook \<^verbatim>\<open>3-Embeddings_SVD_Viz.ipynb\<close> builds its matrices with
  \<^verbatim>\<open>scipy.sparse.csc_matrix\<close>. A sparse matrix is modelled as its shape and the
  list of its stored entries, one per stored position. The order of storage is not
  modelled. A stored value is the real number the floating-point value stands for;
  the operations of the two element types the notebook uses, \<^verbatim>\<open>float32\<close> for the
  counts and \<^verbatim>\<open>float64\<close> for the PPMI values, are given below.
\<close>

datatype error = ValueError | OverflowError

record 'a csc_matrix =
  shape :: "nat \<times> nat"
  entries :: "((nat \<times> nat) \<times> 'a) list"

text \<open>\<^verbatim>\<open>C[i, j]\<close>: the stored value, zero where nothing is stored.\<close>

definition get_item :: "('a::zero) csc_matrix \<Rightarrow> nat \<Rightarrow> nat \<Rightarrow> 'a" where
  "get_item M i j = (case map_of (entries M) (i, j) of None \<Rightarrow> 0 | Some v \<Rightarrow> v)"

text \<open>
  The canonical form every matrix built by the library has: no position is stored
  twice and every stored position lies inside the shape.
\<close>

definition canonical :: "'a csc_matrix \<Rightarrow> bool" where
  "canonical M \<longleftrightarrow>
     distinct (map fst (entries M)) \<and>
     list_all (\<lambda>e. fst (fst e) < fst (shape M) \<and> snd (fst e) < snd (shape M)) (entries M)"

text \<open>\<^verbatim>\<open>csc_matrix((V, V))\<close>: the empty matrix of a given shape.\<close>

definition csc_matrix_empty :: "nat \<times> nat \<Rightarrow> 'a csc_matrix" where
  "csc_matrix_empty shp = \<lparr>shape = shp, entries = []\<rparr>"

section \<open>Single precision\<close>

text \<open>
  The co-occurrence matrix has \<^verbatim>\<open>dtype=np.float32\<close>: every addition on its
  values is rounded to the nearest number with a significand of 24 bits, a tie going
  to the even significand. Every integer up to \<open>2^24\<close> is such a number, and
  \<open>2^24 + 1\<close> is not. The range of the exponent is not modelled: no count comes
  near \<open>2^127\<close>.
\<close>

definition round_half_even :: "real \<Rightarrow> int" where
  "round_half_even y =
     (let f = \<lfloor>y\<rfloor>; d = y - of_int f
      in if d < 1 / 2 then f else if 1 / 2 < d then f + 1 else if even f then f else f + 1)"

definition f32 :: "real \<Rightarrow> real" where
  "f32 x =
     (if x = 0 then 0
      else let u = 2 powr of_int (\<lfloor>log 2 \<bar>x\<bar>\<rfloor> - 23)
           in of_int (round_half_even (x / u)) * u)"

definition f32_add :: "real \<Rightarrow> real \<Rightarrow> real" where
  "f32_add a b = f32 (a + b)"

section \<open>Building and adding sparse matrices\<close>

text \<open>
  \<^verbatim>\<open>csc_matrix((data, (i, j)), shape=shp)\<close>: the constructor from coordinate
  triples. The indices are first converted to the 64-bit index type; a Python integer
  that does not fit raises \<^verbatim>\<open>OverflowError\<close> (a dimension fits in 64 bits, so an
  index inside the shape always converts). Then \<^verbatim>\<open>ValueError\<close> is raised when the
  three arrays differ in length and, when there is at least one triple, when an index
  is negative or not below the dimension. The values at one position are added up one
  after the other with the addition \<open>add\<close> of the element type.
\<close>

definition fits_int64 :: "int \<Rightarrow> bool" where
  "fits_int64 r \<longleftrightarrow> - (2 ^ 63) \<le> r \<and> r < 2 ^ 63"

definition index_ok :: "nat \<Rightarrow> int \<Rightarrow> bool" where
  "index_ok n r \<longleftrightarrow> 0 \<le> r \<and> r < int n"

definition converts :: "nat \<Rightarrow> int \<Rightarrow> bool" where
  "converts n r \<longleftrightarrow> index_ok n r \<or> fits_int64 r"

definition coo_sum ::
  "('a \<Rightarrow> 'a \<Rightarrow> 'a) \<Rightarrow> ((nat \<times> nat) \<times> ('a::zero)) list \<Rightarrow> nat \<times> nat \<Rightarrow> 'a" where
  "coo_sum add ts p =
     (case map snd (filter (\<lambda>t. fst t = p) ts) of [] \<Rightarrow> 0 | v # vs \<Rightarrow> foldl add v vs)"

definition sum_duplicates ::
  "('a \<Rightarrow> 'a \<Rightarrow> 'a) \<Rightarrow> ((nat \<times> nat) \<times> ('a::zero)) list \<Rightarrow> ((nat \<times> nat) \<times> 'a) list" where
  "sum_duplicates add ts = map (\<lambda>p. (p, coo_sum add ts p)) (remdups (map fst ts))"

definition csc_matrix_coo ::
  "('a \<Rightarrow> 'a \<Rightarrow> 'a) \<Rightarrow> ('a::zero) list \<Rightarrow> int list \<Rightarrow> int list \<Rightarrow> nat \<times> nat \<Rightarrow>
     error + 'a csc_matrix" where
  "csc_matrix_coo add data rows cols shp =
     (if \<not> list_all (converts (fst shp)) rows \<or> \<not> list_all (converts (snd shp)) cols
      then Inl OverflowError
      else if length rows \<noteq> length data \<or> length cols \<noteq> length data then Inl ValueError
      else if \<not> list_all (index_ok (fst shp)) rows then Inl ValueError
      else if \<not> list_all (index_ok (snd shp)) cols then Inl ValueError
      else Inr \<lparr>shape = shp,
                entries = sum_duplicates add (zip (zip (map nat rows) (map nat cols)) data)\<rparr>)"

text \<open>\<^verbatim>\<open>M.T\<close>: the transpose.\<close>

definition transpose_csc :: "'a csc_matrix \<Rightarrow> 'a csc_matrix" where
  "transpose_csc M =
     \<lparr>shape = (snd (shape M), fst (shape M)),
      entries = map (\<lambda>e. ((snd (fst e), fst (fst e)), snd e)) (entries M)\<rparr>"

text \<open>
  \<^verbatim>\<open>A + B\<close> on sparse matrices: \<^verbatim>\<open>ValueError\<close> on different shapes; at every
  position stored in either operand the two values are added with the addition of
  the element type, and the sum is stored where it is not zero.
\<close>

definition add_csc ::
  "('a \<Rightarrow> 'a \<Rightarrow> 'a) \<Rightarrow> ('a::zero) csc_matrix \<Rightarrow> 'a csc_matrix \<Rightarrow> error + 'a csc_matrix" where
  "add_csc add A B =
     (if shape A \<noteq> shape B then Inl ValueError
      else Inr \<lparr>shape = shape A,
                entries = filter (\<lambda>e. snd e \<noteq> 0)
                  (map (\<lambda>p. (p, add (get_item A (fst p) (snd p)) (get_item B (fst p) (snd p))))
                     (remdups (map fst (entries A) @ map fst (entries B))))\<rparr>)"

section \<open>The co-occurrence matrix\<close>

text \<open>
  Python's slices \<^verbatim>\<open>xs[:e]\<close> and \<^verbatim>\<open>xs[s:]\<close>: a negative bound counts from the
  end, and a bound outside the list is clamped.
\<close>

definition slice_to :: "'a list \<Rightarrow> int \<Rightarrow> 'a list" where
  "slice_to xs e = (if e < 0 then take (nat (int (length xs) + e)) xs else take (nat e) xs)"

definition slice_from :: "'a list \<Rightarrow> int \<Rightarrow> 'a list" where
  "slice_from xs s = (if s < 0 then drop (nat (int (length xs) + s)) xs else drop (nat s) xs)"

text \<open>\<^verbatim>\<open>np.ones_like(i)\<close>: a one for every element.\<close>

definition ones_like :: "'b list \<Rightarrow> real list" where
  "ones_like xs = map (\<lambda>_. 1) xs"

text \<open>
  The body of the loop \<^verbatim>\<open>for k in range(1, K+1)\<close> of \<^verbatim>\<open>cooccurrence_matrix\<close>,
  run over the remaining offsets with the accumulator \<open>C\<close>. All three matrices are
  \<^verbatim>\<open>float32\<close>. An exception raised by the library ends the loop.
\<close>

fun cooccurrence_loop ::
  "int list \<Rightarrow> int list \<Rightarrow> real csc_matrix \<Rightarrow> error + real csc_matrix" where
  "cooccurrence_loop token_ids [] C = Inr C"
| "cooccurrence_loop token_ids (k # ks) C =
     (let i = slice_to token_ids (- k);
          j = slice_from token_ids k
      in case csc_matrix_coo f32_add (ones_like i) i j (shape C) of
           Inl e \<Rightarrow> Inl e
         | Inr Ck_plus \<Rightarrow>
             (case add_csc f32_add Ck_plus (transpose_csc Ck_plus) of
                Inl e \<Rightarrow> Inl e
              | Inr S \<Rightarrow>
                  (case add_csc f32_add C S of
                     Inl e \<Rightarrow> Inl e
                   | Inr C' \<Rightarrow> cooccurrence_loop token_ids ks C')))"

definition cooccurrence_matrix :: "int list \<Rightarrow> nat \<Rightarrow> int \<Rightarrow> error + real csc_matrix" where
  "cooccurrence_matrix token_ids V K =
     cooccurrence_loop token_ids [1..K] (csc_matrix_empty (V, V))"

text \<open>
  The count the specification gives for an entry, written from its words: for an
  offset \<open>k\<close>, the number of positions \<open>l\<close> with \<open>token[l] = i\<close> and
  \<open>token[l+k] = j\<close>; and for a window \<open>K\<close>, the sum over the offsets
  \<open>1..K\<close> of that number in each direction.
\<close>

definition pair_count :: "int list \<Rightarrow> nat \<Rightarrow> nat \<Rightarrow> nat \<Rightarrow> nat" where
  "pair_count tokens k i j =
     length (filter (\<lambda>l. tokens ! l = int i \<and> tokens ! (l + k) = int j)
               [0..<length tokens - k])"

definition cooccurrence_count :: "int list \<Rightarrow> int \<Rightarrow> nat \<Rightarrow> nat \<Rightarrow> nat" where
  "cooccurrence_count tokens K i j =
     sum_list (map (\<lambda>k. pair_count tokens (nat k) i j + pair_count tokens (nat k) j i) [1..K])"

section \<open>Floating-point results that are not numbers\<close>

text \<open>
  NumPy does not raise on a division by zero or on the logarithm of a non-positive
  number: it yields an infinity or \<^verbatim>\<open>nan\<close>. A \<^verbatim>\<open>float64\<close> value computed by
  such an operation is therefore a real number, an infinity or \<^verbatim>\<open>nan\<close>. Finite
  \<^verbatim>\<open>float64\<close> results are exact reals; their rounding, overflow and the sign of
  zero are not modelled (a zero divisor is taken as positive zero).
\<close>

datatype npfloat = Fin real | PosInf | NegInf | NaN

instantiation npfloat :: monoid_add
begin

definition zero_npfloat :: npfloat where
  "zero_npfloat = Fin 0"

fun plus_npfloat :: "npfloat \<Rightarrow> npfloat \<Rightarrow> npfloat" where
  "plus_npfloat (Fin a) (Fin b) = Fin (a + b)"
| "plus_npfloat NaN y = NaN"
| "plus_npfloat x NaN = NaN"
| "plus_npfloat PosInf NegInf = NaN"
| "plus_npfloat NegInf PosInf = NaN"
| "plus_npfloat PosInf y = PosInf"
| "plus_npfloat x PosInf = PosInf"
| "plus_npfloat NegInf y = NegInf"
| "plus_npfloat x NegInf = NegInf"

instance
proof
  fix a b c :: npfloat
  show "a + b + c = a + (b + c)"
    by (cases a; cases b; cases c) simp_all
  show "0 + a = a"
    by (cases a) (simp_all add: zero_npfloat_def)
  show "a + 0 = a"
    by (cases a) (simp_all add: zero_npfloat_def)
qed

end

text \<open>\<^verbatim>\<open>a / b\<close> on two finite floats.\<close>

definition np_divide :: "real \<Rightarrow> real \<Rightarrow> npfloat" where
  "np_divide a b =
     (if b \<noteq> 0 then Fin (a / b)
      else if a = 0 then NaN
      else if 0 < a then PosInf
      else NegInf)"

text \<open>\<^verbatim>\<open>np.log\<close>: minus infinity at zero, \<^verbatim>\<open>nan\<close> below zero.\<close>

fun np_log :: "npfloat \<Rightarrow> npfloat" where
  "np_log (Fin x) = (if 0 < x then Fin (ln x) else if x = 0 then NegInf else NaN)"
| "np_log PosInf = PosInf"
| "np_log NegInf = NaN"
| "np_log NaN = NaN"

text \<open>\<^verbatim>\<open>np.maximum(a, x)\<close> with a finite \<open>a\<close>: \<^verbatim>\<open>nan\<close> propagates.\<close>

fun np_maximum :: "real \<Rightarrow> npfloat \<Rightarrow> npfloat" where
  "np_maximum a (Fin x) = Fin (max a x)"
| "np_maximum a PosInf = PosInf"
| "np_maximum a NegInf = Fin a"
| "np_maximum a NaN = NaN"

section \<open>The PPMI transform\<close>

text \<open>
  \<^verbatim>\<open>C.sum()\<close>, \<^verbatim>\<open>C.sum(axis=0)\<close> (one sum per column) and \<^verbatim>\<open>C.sum(axis=1)\<close>
  (one sum per row) are computed by the library in \<^verbatim>\<open>float32\<close>, the element type of
  \<open>C\<close>. The library adds the values in an order of its own and rounds after every
  addition, so the notebook does not determine the value of such a sum: the three
  reductions, each from the stored values to their sum, are parameters.
\<close>

record reductions =
  sum_all :: "real list \<Rightarrow> real"
  sum_axis0 :: "real list \<Rightarrow> real"
  sum_axis1 :: "real list \<Rightarrow> real"

text \<open>
  What is known of such a reduction: its value is reached from the values by
  \<^verbatim>\<open>float32\<close> additions, in some order and some grouping.
\<close>

inductive rounded_sum_of :: "real list \<Rightarrow> real \<Rightarrow> bool" where
  none: "rounded_sum_of [] 0"
| one: "rounded_sum_of [x] x"
| add: "rounded_sum_of xs a \<Longrightarrow> rounded_sum_of ys b \<Longrightarrow> rounded_sum_of (xs @ ys) (f32_add a b)"
| reorder: "rounded_sum_of xs a \<Longrightarrow> mset xs = mset ys \<Longrightarrow> rounded_sum_of ys a"

definition float32_sum :: "(real list \<Rightarrow> real) \<Rightarrow> bool" where
  "float32_sum s \<longleftrightarrow> (\<forall>xs. rounded_sum_of xs (s xs))"

definition float32_sums :: "reductions \<Rightarrow> bool" where
  "float32_sums lib \<longleftrightarrow>
     float32_sum (sum_all lib) \<and> float32_sum (sum_axis0 lib) \<and> float32_sum (sum_axis1 lib)"

text \<open>
  One such reduction, used in the examples: the first eight values are added in pairs,
  the pairs in pairs and the two halves together, and the remaining values are added
  one after the other; fewer than eight values are added one after the other.
\<close>

definition blocked_sum :: "real list \<Rightarrow> real" where
  "blocked_sum xs =
     (case xs of
        a # b # c # d # e # f # g # h # rest \<Rightarrow>
          foldl f32_add
            (f32_add (f32_add (f32_add a b) (f32_add c d))
                     (f32_add (f32_add e f) (f32_add g h))) rest
      | _ \<Rightarrow> foldl f32_add 0 xs)"

definition blocked_sums :: reductions where
  "blocked_sums = \<lparr>sum_all = blocked_sum, sum_axis0 = blocked_sum, sum_axis1 = blocked_sum\<rparr>"

text \<open>
  \<^verbatim>\<open>float(C.sum())\<close>, \<^verbatim>\<open>C.sum(axis=0)\<close>, \<^verbatim>\<open>C.sum(axis=1)\<close>, \<^verbatim>\<open>C.nonzero()\<close>
  (the positions whose stored value is not zero) and \<^verbatim>\<open>eliminate_zeros\<close> (which
  drops the stored zeros).
\<close>

definition matrix_sum :: "reductions \<Rightarrow> real csc_matrix \<Rightarrow> real" where
  "matrix_sum lib C = sum_all lib (map snd (entries C))"

definition col_sums :: "reductions \<Rightarrow> real csc_matrix \<Rightarrow> real list" where
  "col_sums lib C =
     map (\<lambda>j. sum_axis0 lib (map snd (filter (\<lambda>e. snd (fst e) = j) (entries C))))
       [0..<snd (shape C)]"

definition row_sums :: "reductions \<Rightarrow> real csc_matrix \<Rightarrow> real list" where
  "row_sums lib C =
     map (\<lambda>i. sum_axis1 lib (map snd (filter (\<lambda>e. fst (fst e) = i) (entries C))))
       [0..<fst (shape C)]"

definition nonzero :: "('a::zero) csc_matrix \<Rightarrow> (nat \<times> nat) list" where
  "nonzero C = map fst (filter (\<lambda>e. snd e \<noteq> 0) (entries C))"

definition eliminate_zeros :: "('a::zero) csc_matrix \<Rightarrow> 'a csc_matrix" where
  "eliminate_zeros M = M\<lparr>entries := filter (\<lambda>e. snd e \<noteq> 0) (entries M)\<rparr>"

text \<open>
  A count matrix: no stored value is negative (the docstring of \<^verbatim>\<open>PPMI\<close> takes
  a matrix of counts).
\<close>

definition nonnegative :: "real csc_matrix \<Rightarrow> bool" where
  "nonnegative C \<longleftrightarrow> list_all (\<lambda>e. 0 \<le> snd e) (entries C)"

text \<open>
  The PMI equation at one of the positions \<^verbatim>\<open>(ii, jj)\<close> of \<^verbatim>\<open>C.nonzero()\<close>:
  \<^verbatim>\<open>np.log(Cij * Z / (Zr[ii] * Zc[jj]))\<close>, on \<^verbatim>\<open>float64\<close> values.
\<close>

definition pmi_arg :: "reductions \<Rightarrow> real csc_matrix \<Rightarrow> nat \<times> nat \<Rightarrow> real \<times> real" where
  "pmi_arg lib C p =
     (get_item C (fst p) (snd p) * matrix_sum lib C,
      row_sums lib C ! fst p * col_sums lib C ! snd p)"

definition pmi :: "reductions \<Rightarrow> real csc_matrix \<Rightarrow> nat \<times> nat \<Rightarrow> npfloat" where
  "pmi lib C p = np_log (np_divide (fst (pmi_arg lib C p)) (snd (pmi_arg lib C p)))"

text \<open>
  \<^verbatim>\<open>PPMI(C)\<close>. With no nonzero position, \<^verbatim>\<open>C[ii,jj]\<close> is an empty sparse matrix
  and its conversion \<^verbatim>\<open>np.array(C[ii,jj], dtype=np.float64)\<close> raises
  \<^verbatim>\<open>ValueError\<close>. Otherwise the PMI of every nonzero position is truncated at zero
  and packed into a \<^verbatim>\<open>float64\<close> sparse matrix of the shape of \<open>C\<close>, and the zeros are
  removed.
\<close>

definition PPMI :: "reductions \<Rightarrow> real csc_matrix \<Rightarrow> error + npfloat csc_matrix" where
  "PPMI lib C =
     (let ijs = nonzero C
      in if ijs = [] then Inl ValueError
         else
           let ppmi = map (\<lambda>p. np_maximum 0 (pmi lib C p)) ijs
           in case csc_matrix_coo (+) ppmi (map (\<lambda>p. int (fst p)) ijs)
                     (map (\<lambda>p. int (snd p)) ijs) (shape C) of
                Inl e \<Rightarrow> Inl e
              | Inr ret \<Rightarrow> Inr (eliminate_zeros ret))"

section \<open>The SVD projection\<close>

text \<open>
  \<^verbatim>\<open>SVD(X, d)\<close> calls scikit-learn's \<^verbatim>\<open>TruncatedSVD(n_components=d,
  random_state=1)\<close>, which is not code of the notebook: the pair of
  \<^verbatim>\<open>fit_transform(X)\<close> and \<^verbatim>\<open>explained_variance_\<close> it yields for \<open>X\<close> and \<open>d\<close>
  is a parameter. What the notebook adds is the division of every row by its
  Euclidean norm, \<^verbatim>\<open>Wv / np.linalg.norm(Wv, axis=1).reshape([-1,1])\<close>.
\<close>

definition row_norm :: "real list \<Rightarrow> real" where
  "row_norm row = sqrt (sum_list (map (\<lambda>x. x * x) row))"

definition norm_rows :: "real list list \<Rightarrow> real list" where
  "norm_rows Wv = map row_norm Wv"

definition divide_rows :: "real list list \<Rightarrow> real list \<Rightarrow> npfloat list list" where
  "divide_rows Wv norms = map (\<lambda>rn. map (\<lambda>x. np_divide x (snd rn)) (fst rn)) (zip Wv norms)"

definition SVD ::
  "('x \<Rightarrow> nat \<Rightarrow> real list list \<times> real list) \<Rightarrow> 'x \<Rightarrow> nat \<Rightarrow> npfloat list list \<times> real list" where
  "SVD truncated_svd X d =
     (let Wv = fst (truncated_svd X d)
      in (divide_rows Wv (norm_rows Wv), snd (truncated_svd X d)))"

section \<open>Properties of the rounding\<close>

lemma round_half_even_of_int [simp]: "round_half_even (of_int z) = z"
  by (simp add: round_half_even_def)

lemma round_half_even_nonneg: "0 \<le> y \<Longrightarrow> 0 \<le> round_half_even y"
  by (auto simp: round_half_even_def Let_def)

lemma round_half_even_ge_floor: "\<lfloor>y\<rfloor> \<le> round_half_even y"
  by (auto simp: round_half_even_def Let_def)

lemma f32_zero [simp]: "f32 0 = 0"
  by (simp add: f32_def)

lemma f32_binade:
  assumes "2 powr of_int k \<le> x" and "x < 2 powr of_int (k + 1)"
  shows "f32 x = of_int (round_half_even (x / 2 powr of_int (k - 23))) * 2 powr of_int (k - 23)"
proof -
  have pos: "0 < x" using assms(1) by (smt (verit) powr_gt_zero)
  then have "\<lfloor>log 2 \<bar>x\<bar>\<rfloor> = k"
    using assms by (simp add: floor_log_eq_powr_iff)
  then show ?thesis using pos by (simp add: f32_def Let_def)
qed

lemma f32_pos: "0 < x \<Longrightarrow> 0 < f32 x"
proof -
  assume pos: "0 < x"
  define k where "k = \<lfloor>log 2 \<bar>x\<bar>\<rfloor>"
  have b: "2 powr of_int k \<le> x" "x < 2 powr of_int (k + 1)"
    using pos floor_log_eq_powr_iff[of x 2 k] by (simp_all add: k_def)
  let ?u = "2 powr of_int (k - 23)"
  have "x / ?u \<ge> 2 powr of_int k / ?u" using b(1) by (simp add: divide_right_mono)
  moreover have "2 powr of_int k / ?u = (2::real) powr 23"
    by (simp add: powr_diff[symmetric])
  ultimately have "(2::real) ^ 23 \<le> x / ?u" by simp
  moreover have "(1::real) \<le> 2 ^ 23" by simp
  ultimately have "1 \<le> x / ?u" by (rule order_trans[rotated])
  then have "1 \<le> \<lfloor>x / ?u\<rfloor>" by (simp add: le_floor_iff)
  then have "0 < round_half_even (x / ?u)"
    using round_half_even_ge_floor[of "x / ?u"] by linarith
  then show ?thesis unfolding f32_binade[OF b] by simp
qed

lemma f32_nonneg: "0 \<le> x \<Longrightarrow> 0 \<le> f32 x"
  using f32_pos[of x] by (cases "x = 0") auto

lemma pow2_int: "0 \<le> k \<Longrightarrow> (2::real) powr of_int k = 2 ^ nat k"
  by (simp add: powr_int)

lemma f32_of_nat:
  assumes "n \<le> 2 ^ 24"
  shows "f32 (real n) = real n"
proof (cases "n = 0")
  case True
  then show ?thesis by simp
next
  case False
  define k where "k = \<lfloor>log 2 \<bar>real n\<bar>\<rfloor>"
  have pos: "0 < real n" using False by simp
  have b: "2 powr of_int k \<le> real n" "real n < 2 powr of_int (k + 1)"
    using pos floor_log_eq_powr_iff[of "real n" 2 k] by (simp_all add: k_def)
  have k0: "0 \<le> k" using False by (simp add: k_def)
  have n24: "real n \<le> 2 ^ 24"
    using assms of_nat_le_iff[of n "2 ^ 24", where ?'a = real] by simp
  have "2 powr of_int k \<le> (2::real) ^ 24"
    using b(1) n24 by linarith
  have k24: "k \<le> 24"
  proof (rule ccontr)
    assume "\<not> k \<le> 24"
    then have "(25::real) \<le> of_int k" by simp
    then have "(2::real) powr 25 \<le> 2 powr of_int k" by (rule powr_mono) simp
    then show False using \<open>2 powr of_int k \<le> (2::real) ^ 24\<close> by simp
  qed
  let ?u = "2 powr of_int (k - 23)"
  have "\<exists>z::int. real n / ?u = of_int z"
  proof (cases "k \<le> 23")
    case True
    have "real n / ?u = real n * 2 powr of_int (23 - k)"
      by (simp add: powr_diff field_simps)
    also have "\<dots> = real n * 2 ^ nat (23 - k)"
      using True by (simp only: pow2_int)
    also have "\<dots> = of_int (int n * 2 ^ nat (23 - k))" by simp
    finally show ?thesis by blast
  next
    case False
    with k24 have k: "k = 24" by simp
    have "(2::real) ^ 24 \<le> real n" using b(1) unfolding k by simp
    then have "real n = 2 ^ 24" using n24 by linarith
    then have "real n / ?u = of_int (2 ^ 23)" unfolding k by simp
    then show ?thesis by blast
  qed
  then obtain z :: int where z: "real n / ?u = of_int z" by blast
  have "f32 (real n) = of_int z * ?u"
    unfolding f32_binade[OF b] z by simp
  also have "\<dots> = real n" using z by (simp add: field_simps)
  finally show ?thesis .
qed

lemma f32_of_nat_closed:
  "\<exists>m. f32 (real n) = real m \<and> (even n \<longrightarrow> even m)"
proof (cases "n \<le> 2 ^ 24")
  case True
  then show ?thesis using f32_of_nat by blast
next
  case False
  define k where "k = \<lfloor>log 2 \<bar>real n\<bar>\<rfloor>"
  have pos: "0 < real n" using False by (cases "n = 0") simp_all
  have b: "2 powr of_int k \<le> real n" "real n < 2 powr of_int (k + 1)"
    using pos floor_log_eq_powr_iff[of "real n" 2 k] by (simp_all add: k_def)
  have "(2::real) ^ 24 < real n"
    using False of_nat_less_iff[of "2 ^ 24" n, where ?'a = real] by simp
  then have "(2::real) powr 24 < 2 powr of_int (k + 1)" using b(2) by simp
  then have "(24::real) < of_int (k + 1)" by (simp only: powr_less_cancel_iff) 
  then have k: "24 \<le> k" by simp
  define j where "j = nat (k - 23)"
  have j: "1 \<le> j" using k by (simp add: j_def)
  have u: "2 powr of_int (k - 23) = (2::real) ^ j"
    using k pow2_int[of "k - 23"] by (simp add: j_def)
  define r where "r = round_half_even (real n / 2 ^ j)"
  have "0 \<le> r" unfolding r_def by (rule round_half_even_nonneg) simp
  then have "f32 (real n) = real (nat r * 2 ^ j)"
    unfolding f32_binade[OF b] u r_def[symmetric] by simp
  moreover have "even (nat r * 2 ^ j)" using j by simp
  ultimately show ?thesis by blast
qed

lemma f32_binade_24:
  "2 ^ 24 \<le> x \<Longrightarrow> x < 2 ^ 25 \<Longrightarrow> f32 x = of_int (round_half_even (x / 2)) * 2"
  using f32_binade[of 24 x] by simp

lemma f32_binade_25:
  "2 ^ 25 \<le> x \<Longrightarrow> x < 2 ^ 26 \<Longrightarrow> f32 x = of_int (round_half_even (x / 4)) * 4"
  using f32_binade[of 25 x] by simp

lemma f32_16777217: "f32 16777217 = 16777216"
  by (subst f32_binade_24) (simp_all add: round_half_even_def)

lemma f32_16777221: "f32 16777221 = 16777220"
  by (subst f32_binade_24) (simp_all add: round_half_even_def)

lemma f32_22369628: "f32 22369628 = 22369628"
  by (subst f32_binade_24) (simp_all add: round_half_even_def)

lemma f32_33554432: "f32 33554432 = 33554432"
  by (subst f32_binade_25) (simp_all add: round_half_even_def)

lemma f32_44739256: "f32 44739256 = 44739256"
  by (subst f32_binade_25) (simp_all add: round_half_even_def)

lemma f32_50331663: "f32 50331663 = 50331664"
  by (subst f32_binade_25) (simp_all add: round_half_even_def)

lemma f32_numeral [simp]:
  "numeral w \<le> (16777216::nat) \<Longrightarrow> f32 (numeral w) = numeral w"
  using f32_of_nat[of "numeral w"] by simp

lemma f32_one [simp]: "f32 1 = 1"
  using f32_of_nat[of 1] by simp

lemma f32_add_zero: "f32_add 0 0 = 0"
  by (simp add: f32_add_def)

lemma f32_add_even:
  assumes "even m" and "even n"
  shows "\<exists>r. even r \<and> f32_add (real m) (real n) = real r"
proof -
  have "even (m + n)" using assms by simp
  with f32_of_nat_closed[of "m + n"] show ?thesis
    by (auto simp: f32_add_def)
qed

lemma foldl_ones:
  "a + m \<le> 2 ^ 24 \<Longrightarrow> foldl f32_add (real a) (replicate m 1) = real (a + m)"
proof (induction m arbitrary: a)
  case 0
  then show ?case by simp
next
  case (Suc m)
  have "f32_add (real a) 1 = real (Suc a)"
    using Suc.prems f32_of_nat[of "Suc a"] by (simp add: f32_add_def add.commute)
  then show ?case using Suc.IH[of "Suc a"] Suc.prems by simp
qed

lemma foldl_ones_saturated:
  "foldl f32_add 16777216 (replicate m 1) = 16777216"
  by (induction m) (simp_all add: f32_add_def f32_16777217)

lemma foldl_ones_min:
  "foldl f32_add 1 (replicate m 1) = real (min (Suc m) (2 ^ 24))"
proof (cases "Suc m \<le> 2 ^ 24")
  case True
  then show ?thesis using foldl_ones[of 1 m] by simp
next
  case False
  define d where "d = Suc m - 2 ^ 24"
  have m: "m = (2 ^ 24 - 1) + d" using False by (simp add: d_def)
  have "foldl f32_add 1 (replicate (2 ^ 24 - 1) 1) = real (1 + (2 ^ 24 - 1))"
    using foldl_ones[of 1 "2 ^ 24 - 1"] by simp
  then have "foldl f32_add 1 (replicate m 1) = foldl f32_add 16777216 (replicate d 1)"
    unfolding m replicate_add foldl_append by simp
  then show ?thesis using False by (simp add: foldl_ones_saturated)
qed

section \<open>Properties of the sparse operations\<close>

lemma map_of_keyed:
  "map_of (map (\<lambda>p. (p, f p)) ks) k = (if k \<in> set ks then Some (f k) else None)"
  by (induction ks) auto

lemma map_of_keyed_filter:
  "map_of (filter (\<lambda>e. P (snd e)) (map (\<lambda>p. (p, f p)) ks)) k =
     (if k \<in> set ks \<and> P (f k) then Some (f k) else None)"
  by (induction ks) auto

lemma coo_sum_absent: "p \<notin> fst ` set ts \<Longrightarrow> coo_sum add ts p = 0"
proof -
  assume "p \<notin> fst ` set ts"
  then have "filter (\<lambda>t. fst t = p) ts = []"
    by (auto simp: filter_empty_conv)
  then show ?thesis by (simp add: coo_sum_def)
qed

lemma get_item_sum_duplicates:
  "get_item \<lparr>shape = shp, entries = sum_duplicates add ts\<rparr> i j = coo_sum add ts (i, j)"
  by (simp add: get_item_def sum_duplicates_def map_of_keyed coo_sum_absent)

lemma get_item_absent:
  "(i, j) \<notin> fst ` set (entries M) \<Longrightarrow> get_item M i j = 0"
  by (simp add: get_item_def map_of_eq_None_iff[THEN iffD2])

lemma get_item_empty: "get_item (csc_matrix_empty shp) i j = 0"
  by (simp add: get_item_def csc_matrix_empty_def)

lemma map_of_swap:
  "map_of (map (\<lambda>e. ((snd (fst e), fst (fst e)), snd e)) xs) (i, j) = map_of xs (j, i)"
  by (induction xs) auto

lemma get_item_transpose: "get_item (transpose_csc M) i j = get_item M j i"
  by (simp add: get_item_def transpose_csc_def map_of_swap)

lemma get_item_add:
  assumes "add_csc add A B = Inr S" and "add 0 0 = 0"
  shows "get_item S i j = add (get_item A i j) (get_item B i j)"
proof -
  let ?f = "\<lambda>p. add (get_item A (fst p) (snd p)) (get_item B (fst p) (snd p))"
  let ?ks = "remdups (map fst (entries A) @ map fst (entries B))"
  from assms have S: "entries S = filter (\<lambda>e. snd e \<noteq> 0) (map (\<lambda>p. (p, ?f p)) ?ks)"
    by (auto simp: add_csc_def split: if_splits)
  have m: "map_of (entries S) (i, j) =
      (if (i, j) \<in> set ?ks \<and> ?f (i, j) \<noteq> 0 then Some (?f (i, j)) else None)"
    unfolding S by (rule map_of_keyed_filter)
  show ?thesis
  proof (cases "(i, j) \<in> set ?ks")
    case True
    then show ?thesis using m by (simp add: get_item_def[of S])
  next
    case False
    then have "get_item A i j = 0" "get_item B i j = 0"
      by (auto intro: get_item_absent)
    then show ?thesis using m False assms(2) by (simp add: get_item_def[of S])
  qed
qed

lemma shape_add: "add_csc add A B = Inr S \<Longrightarrow> shape S = shape A"
  by (auto simp: add_csc_def split: if_splits)

lemma coo_sum_ones:
  assumes "\<forall>t\<in>set ts. snd t = 1"
  shows "coo_sum f32_add ts p = real (min (length (filter (\<lambda>t. fst t = p) ts)) (2 ^ 24))"
proof -
  let ?vs = "map snd (filter (\<lambda>t. fst t = p) ts)"
  have "\<forall>v\<in>set ?vs. v = 1" using assms by auto
  then have vs: "?vs = replicate (length (filter (\<lambda>t. fst t = p) ts)) 1"
    using replicate_length_same[of ?vs 1] by simp
  show ?thesis
  proof (cases "length (filter (\<lambda>t. fst t = p) ts)")
    case 0
    then show ?thesis by (simp add: coo_sum_def)
  next
    case (Suc m)
    then have "?vs = 1 # replicate m 1" using vs by simp
    then have "coo_sum f32_add ts p = foldl f32_add 1 (replicate m 1)"
      by (simp add: coo_sum_def)
    then show ?thesis using Suc by (simp only: foldl_ones_min)
  qed
qed

lemma remdups_replicate_Suc: "remdups (replicate (Suc m) x) = [x]"
  by (induction m) simp_all

lemma remdups_replicate_pos: "0 < m \<Longrightarrow> remdups (replicate m x) = [x]"
  using remdups_replicate_Suc[of "m - 1" x] by simp

lemma sum_duplicates_replicate:
  assumes "0 < m"
  shows "sum_duplicates f32_add (replicate m (p, 1)) = [(p, real (min m (2 ^ 24)))]"
proof -
  have "\<forall>t\<in>set (replicate m (p, 1::real)). snd t = 1" by simp
  from coo_sum_ones[OF this, of p]
  have "coo_sum f32_add (replicate m (p, 1)) p = real (min m (2 ^ 24))"
    by (simp add: filter_replicate)
  then show ?thesis
    using assms by (simp add: sum_duplicates_def remdups_replicate_pos)
qed

lemma index_ok_converts: "list_all (index_ok n) rs \<Longrightarrow> list_all (converts n) rs"
  by (simp add: list_all_iff converts_def)

section \<open>Properties of the co-occurrence matrix\<close>

lemma pair_count_card:
  "pair_count tokens k i j =
     card {l. l + k < length tokens \<and> tokens ! l = int i \<and> tokens ! (l + k) = int j}"
proof -
  have "{l. l + k < length tokens \<and> tokens ! l = int i \<and> tokens ! (l + k) = int j}
      = set (filter (\<lambda>l. tokens ! l = int i \<and> tokens ! (l + k) = int j) [0..<length tokens - k])"
    by auto
  moreover have "distinct (filter (\<lambda>l. tokens ! l = int i \<and> tokens ! (l + k) = int j) [0..<length tokens - k])"
    by simp
  ultimately show ?thesis
    unfolding pair_count_def by (simp only: distinct_card)
qed

lemma pair_count_replicate: "pair_count (replicate n 0) (Suc 0) 0 0 = n - 1"
proof -
  have "filter (\<lambda>l. replicate n (0::int) ! l = int 0 \<and> replicate n 0 ! (l + Suc 0) = int 0) [0..<n - 1]
      = [0..<n - 1]"
    by (rule filter_True) simp
  then show ?thesis by (simp add: pair_count_def)
qed

lemma slice_to_neg: "1 \<le> k \<Longrightarrow> slice_to xs (- k) = take (length xs - nat k) xs"
  by (simp add: slice_to_def nat_diff_distrib')

lemma slice_from_pos: "1 \<le> k \<Longrightarrow> slice_from xs k = drop (nat k) xs"
  by (simp add: slice_from_def)

lemma zip_offset:
  "zip (zip (map nat (take (length xs - k) xs)) (map nat (drop k xs)))
       (ones_like (take (length xs - k) xs))
     = map (\<lambda>l. ((nat (xs ! l), nat (xs ! (l + k))), 1::real)) [0..<length xs - k]"
  by (rule nth_equalityI) (auto simp: ones_like_def add.commute)

lemma get_item_pairs:
  assumes tok: "list_all (index_ok V) xs" and k: "1 \<le> k"
  shows "\<exists>P. csc_matrix_coo f32_add (ones_like (slice_to xs (- k))) (slice_to xs (- k))
                (slice_from xs k) (V, V) = Inr P
           \<and> shape P = (V, V)
           \<and> (\<forall>i j. get_item P i j = real (min (pair_count xs (nat k) i j) (2 ^ 24)))"
proof -
  let ?n = "nat k"
  let ?i = "take (length xs - ?n) xs" and ?j = "drop ?n xs"
  have sl: "slice_to xs (- k) = ?i" "slice_from xs k = ?j"
    using k by (simp_all add: slice_to_neg slice_from_pos)
  have ok: "list_all (index_ok V) ?i" "list_all (index_ok V) ?j"
    using tok by (auto simp: list_all_iff dest: in_set_takeD in_set_dropD)
  let ?ts = "zip (zip (map nat ?i) (map nat ?j)) (ones_like ?i)"
  let ?P = "\<lparr>shape = (V, V), entries = sum_duplicates f32_add ?ts\<rparr>"
  have c: "csc_matrix_coo f32_add (ones_like ?i) ?i ?j (V, V) = Inr ?P"
    using ok index_ok_converts[OF ok(1)] index_ok_converts[OF ok(2)]
    by (simp add: csc_matrix_coo_def ones_like_def)
  have nn: "\<And>l. l < length xs \<Longrightarrow> 0 \<le> xs ! l"
    using tok by (auto simp: list_all_iff index_ok_def)
  have ones: "\<forall>t\<in>set ?ts. snd t = 1"
    by (auto simp: ones_like_def dest!: set_zip_rightD)
  have g: "get_item ?P i j = real (min (pair_count xs ?n i j) (2 ^ 24))" for i j
  proof -
    have "length (filter (\<lambda>t. fst t = (i, j)) ?ts)
        = length (filter (\<lambda>l. nat (xs ! l) = i \<and> nat (xs ! (l + ?n)) = j) [0..<length xs - ?n])"
      unfolding zip_offset by (simp add: filter_map comp_def)
    also have "filter (\<lambda>l. nat (xs ! l) = i \<and> nat (xs ! (l + ?n)) = j) [0..<length xs - ?n]
       = filter (\<lambda>l. xs ! l = int i \<and> xs ! (l + ?n) = int j) [0..<length xs - ?n]"
      by (rule filter_cong) (use nn in \<open>auto simp: nat_eq_iff\<close>)
    finally have "length (filter (\<lambda>t. fst t = (i, j)) ?ts) = pair_count xs ?n i j"
      by (simp add: pair_count_def)
    then show ?thesis
      by (simp only: get_item_sum_duplicates coo_sum_ones[OF ones])
  qed
  show ?thesis using c g unfolding sl by auto
qed

text \<open>
  One turn of the loop, at every position: the two directed counts of the offset, each
  saturated at \<open>2^24\<close> by the additions of the constructor, are added and their sum
  is added to the accumulator, each time with rounding.
\<close>

lemma cooccurrence_loop_step:
  assumes tok: "list_all (index_ok V) xs" and k: "1 \<le> k" and sh: "shape C = (V, V)"
  shows "\<exists>C1. cooccurrence_loop xs (k # ks) C = cooccurrence_loop xs ks C1 \<and> shape C1 = (V, V) \<and>
     (\<forall>i j. get_item C1 i j =
        f32_add (get_item C i j)
          (f32_add (real (min (pair_count xs (nat k) i j) (2 ^ 24)))
                   (real (min (pair_count xs (nat k) j i) (2 ^ 24)))))"
proof -
  from get_item_pairs[OF tok k] obtain P where
    P: "csc_matrix_coo f32_add (ones_like (slice_to xs (- k))) (slice_to xs (- k))
          (slice_from xs k) (V, V) = Inr P"
    and shP: "shape P = (V, V)"
    and gP: "\<And>i j. get_item P i j = real (min (pair_count xs (nat k) i j) (2 ^ 24))"
    by blast
  have "shape P = shape (transpose_csc P)" by (simp add: transpose_csc_def shP)
  then obtain S where S: "add_csc f32_add P (transpose_csc P) = Inr S"
    by (simp add: add_csc_def)
  have shS: "shape S = (V, V)" using shape_add[OF S] shP by simp
  then obtain C1 where C1: "add_csc f32_add C S = Inr C1"
    using sh by (simp add: add_csc_def)
  have shC1: "shape C1 = (V, V)" using shape_add[OF C1] sh by simp
  have "get_item C1 i j = f32_add (get_item C i j)
          (f32_add (real (min (pair_count xs (nat k) i j) (2 ^ 24)))
                   (real (min (pair_count xs (nat k) j i) (2 ^ 24))))" for i j
    by (simp only: get_item_add[OF C1 f32_add_zero] get_item_add[OF S f32_add_zero]
        get_item_transpose gP)
  moreover have "cooccurrence_loop xs (k # ks) C = cooccurrence_loop xs ks C1"
    using P S C1 sh by simp
  ultimately show ?thesis using shC1 by blast
qed

lemma cooccurrence_loop_exact:
  assumes tok: "list_all (index_ok V) xs"
  shows "\<forall>k\<in>set ks. 1 \<le> k \<Longrightarrow> shape C = (V, V) \<Longrightarrow>
    \<exists>C'. cooccurrence_loop xs ks C = Inr C' \<and>
      (\<forall>i j n. get_item C i j = real n \<longrightarrow>
         n + sum_list (map (\<lambda>k. pair_count xs (nat k) i j + pair_count xs (nat k) j i) ks)
           \<le> 2 ^ 24 \<longrightarrow>
         get_item C' i j =
           real (n + sum_list (map (\<lambda>k. pair_count xs (nat k) i j + pair_count xs (nat k) j i) ks)))"
proof (induction ks arbitrary: C)
  case Nil
  then show ?case by simp
next
  case (Cons k ks)
  from Cons.prems have k: "1 \<le> k" and ks: "\<forall>k\<in>set ks. 1 \<le> k" by simp_all
  from cooccurrence_loop_step[OF tok k Cons.prems(2)] obtain C1 where
    st: "cooccurrence_loop xs (k # ks) C = cooccurrence_loop xs ks C1"
    and shC1: "shape C1 = (V, V)"
    and gC1: "\<And>i j. get_item C1 i j =
        f32_add (get_item C i j)
          (f32_add (real (min (pair_count xs (nat k) i j) (2 ^ 24)))
                   (real (min (pair_count xs (nat k) j i) (2 ^ 24))))"
    by blast
  from Cons.IH[OF ks shC1] obtain C' where
    C': "cooccurrence_loop xs ks C1 = Inr C'"
    and gC': "\<And>i j n. get_item C1 i j = real n \<Longrightarrow>
         n + sum_list (map (\<lambda>k. pair_count xs (nat k) i j + pair_count xs (nat k) j i) ks)
           \<le> 2 ^ 24 \<Longrightarrow>
         get_item C' i j =
           real (n + sum_list (map (\<lambda>k. pair_count xs (nat k) i j + pair_count xs (nat k) j i) ks))"
    by blast
  have "get_item C' i j =
      real (n + sum_list (map (\<lambda>k. pair_count xs (nat k) i j + pair_count xs (nat k) j i) (k # ks)))"
    if n: "get_item C i j = real n"
      and b: "n + sum_list (map (\<lambda>k. pair_count xs (nat k) i j + pair_count xs (nat k) j i) (k # ks))
           \<le> 2 ^ 24"
    for i j n
  proof -
    let ?a = "pair_count xs (nat k) i j" and ?b = "pair_count xs (nat k) j i"
    let ?r = "sum_list (map (\<lambda>k. pair_count xs (nat k) i j + pair_count xs (nat k) j i) ks)"
    from b have b': "n + (?a + ?b) + ?r \<le> 2 ^ 24" by simp
    then have ab: "?a + ?b \<le> 2 ^ 24" "n + (?a + ?b) \<le> 2 ^ 24" by linarith+
    have "f32_add (real (min ?a (2 ^ 24))) (real (min ?b (2 ^ 24))) = real (?a + ?b)"
      using ab(1) f32_of_nat[of "?a + ?b"] by (simp add: f32_add_def min_def)
    then have "get_item C1 i j = real (n + (?a + ?b))"
      using ab(2) f32_of_nat[of "n + (?a + ?b)"] by (simp add: gC1 n f32_add_def)
    from gC'[OF this] b' show ?thesis by (simp add: add.assoc)
  qed
  then show ?case using st C' by auto
qed

lemma cooccurrence_loop_symmetric:
  assumes tok: "list_all (index_ok V) xs"
  shows "\<forall>k\<in>set ks. 1 \<le> k \<Longrightarrow> shape C = (V, V) \<Longrightarrow>
    \<forall>i j. get_item C i j = get_item C j i \<Longrightarrow>
    \<exists>C'. cooccurrence_loop xs ks C = Inr C' \<and> (\<forall>i j. get_item C' i j = get_item C' j i)"
proof (induction ks arbitrary: C)
  case Nil
  then show ?case by simp
next
  case (Cons k ks)
  from Cons.prems have k: "1 \<le> k" and ks: "\<forall>k\<in>set ks. 1 \<le> k" by simp_all
  from cooccurrence_loop_step[OF tok k Cons.prems(2)] obtain C1 where
    st: "cooccurrence_loop xs (k # ks) C = cooccurrence_loop xs ks C1"
    and shC1: "shape C1 = (V, V)"
    and gC1: "\<And>i j. get_item C1 i j =
        f32_add (get_item C i j)
          (f32_add (real (min (pair_count xs (nat k) i j) (2 ^ 24)))
                   (real (min (pair_count xs (nat k) j i) (2 ^ 24))))"
    by blast
  have "\<forall>i j. get_item C1 i j = get_item C1 j i"
    using Cons.prems(3) by (simp add: gC1 f32_add_def add.commute)
  from Cons.IH[OF ks shC1 this] show ?case by (simp only: st)
qed

lemma cooccurrence_loop_diagonal:
  assumes tok: "list_all (index_ok V) xs"
  shows "\<forall>k\<in>set ks. 1 \<le> k \<Longrightarrow> shape C = (V, V) \<Longrightarrow>
    \<forall>i. \<exists>n::nat. even n \<and> get_item C i i = real n \<Longrightarrow>
    \<exists>C'. cooccurrence_loop xs ks C = Inr C' \<and> (\<forall>i. \<exists>n::nat. even n \<and> get_item C' i i = real n)"
proof (induction ks arbitrary: C)
  case Nil
  then show ?case by simp
next
  case (Cons k ks)
  from Cons.prems have k: "1 \<le> k" and ks: "\<forall>k\<in>set ks. 1 \<le> k" by simp_all
  from cooccurrence_loop_step[OF tok k Cons.prems(2)] obtain C1 where
    st: "cooccurrence_loop xs (k # ks) C = cooccurrence_loop xs ks C1"
    and shC1: "shape C1 = (V, V)"
    and gC1: "\<And>i j. get_item C1 i j =
        f32_add (get_item C i j)
          (f32_add (real (min (pair_count xs (nat k) i j) (2 ^ 24)))
                   (real (min (pair_count xs (nat k) j i) (2 ^ 24))))"
    by blast
  have "\<exists>n::nat. even n \<and> get_item C1 i i = real n" for i
  proof -
    let ?m = "min (pair_count xs (nat k) i i) (2 ^ 24)"
    have "even (?m + ?m)" by simp
    with f32_of_nat_closed[of "?m + ?m"] obtain s where
      s: "even s" "f32_add (real ?m) (real ?m) = real s"
      by (auto simp: f32_add_def)
    from Cons.prems(3) obtain n where n: "even n" "get_item C i i = real n" by blast
    from f32_add_even[OF n(1) s(1)] show ?thesis
      by (simp only: gC1 n(2) s(2))
  qed
  then have "\<forall>i. \<exists>n::nat. even n \<and> get_item C1 i i = real n" by blast
  from Cons.IH[OF ks shC1 this] show ?case by (simp only: st)
qed

lemma upto_2: "[1..2] = [1, 2]"
  by (simp add: upto.simps)

text \<open>
  Claim C1 says that every entry equals the count for every token stream. The matrix
  is \<^verbatim>\<open>float32\<close>: for a stream of \<open>2^24 + 2\<close> equal tokens, with \<open>V = 1\<close> and
  \<open>K = 1\<close>, the count of the only pair is \<open>2 * (2^24 + 1) = 33554434\<close>, but the sum of
  the \<open>2^24 + 1\<close> ones of one direction stops at \<open>2^24\<close> and the entry is \<open>33554432\<close>.
\<close>

theorem cooccurrence_matrix_counts_counterexample:
  "cooccurrence_matrix (replicate 16777218 0) 1 1
     = Inr \<lparr>shape = (1, 1), entries = [((0, 0), 33554432)]\<rparr> \<and>
   cooccurrence_count (replicate 16777218 0) 1 0 0 = 33554434"
proof -
  let ?xs = "replicate 16777218 (0::int)"
  have sl: "slice_to ?xs (- 1) = replicate 16777217 0" "slice_from ?xs 1 = replicate 16777217 0"
    by (simp_all add: slice_to_def slice_from_def)
  have ones: "ones_like (replicate 16777217 (0::int)) = replicate 16777217 1"
    by (simp add: ones_like_def)
  have P: "csc_matrix_coo f32_add (replicate 16777217 1) (replicate 16777217 0)
             (replicate 16777217 0) (1, 1)
         = Inr \<lparr>shape = (1, 1), entries = [((0, 0), 16777216)]\<rparr>"
    by (simp add: csc_matrix_coo_def list_all_iff converts_def index_ok_def
        sum_duplicates_replicate)
  have T: "transpose_csc \<lparr>shape = (1, 1), entries = [((0, 0), 16777216 :: real)]\<rparr>
         = \<lparr>shape = (1, 1), entries = [((0, 0), 16777216)]\<rparr>"
    by (simp add: transpose_csc_def)
  have S: "add_csc f32_add \<lparr>shape = (1, 1), entries = [((0, 0), 16777216)]\<rparr>
             \<lparr>shape = (1, 1), entries = [((0, 0), 16777216)]\<rparr>
         = Inr \<lparr>shape = (1, 1), entries = [((0, 0), 33554432)]\<rparr>"
    by (simp add: add_csc_def get_item_def f32_add_def f32_33554432)
  have C: "add_csc f32_add (csc_matrix_empty (1, 1))
             \<lparr>shape = (1, 1), entries = [((0, 0), 33554432)]\<rparr>
         = Inr \<lparr>shape = (1, 1), entries = [((0, 0), 33554432)]\<rparr>"
    by (simp add: add_csc_def get_item_def csc_matrix_empty_def f32_add_def f32_33554432)
  have sh: "shape (csc_matrix_empty (1, 1) :: real csc_matrix) = (1, 1)"
    by (simp add: csc_matrix_empty_def)
  have up: "[1..1::int] = [1]" by (simp add: upto.simps)
  have "cooccurrence_matrix ?xs 1 1 = Inr \<lparr>shape = (1, 1), entries = [((0, 0), 33554432)]\<rparr>"
    unfolding cooccurrence_matrix_def up cooccurrence_loop.simps Let_def sl ones sh P T S C
      sum.case
    by (rule refl)
  moreover have "cooccurrence_count ?xs 1 0 0 = 33554434"
    by (simp add: cooccurrence_count_def upto.simps pair_count_replicate)
  ultimately show ?thesis by simp
qed

text \<open>
  Claim C1, amended. For a token stream whose values all lie in \<open>[0, V)\<close> and a window
  \<open>K \<ge> 1\<close>, \<^verbatim>\<open>cooccurrence_matrix\<close> returns a matrix, and each of its entries
  \<open>C[i,j]\<close> for which the count is at most \<open>2^24\<close> equals that count: the sum over the
  offsets \<open>k\<close> in \<open>1..K\<close> of the number of positions \<open>l\<close> with \<open>token[l] = i\<close> and
  \<open>token[l+k] = j\<close> plus the number of positions with \<open>token[l] = j\<close> and
  \<open>token[l+k] = i\<close>.
\<close>

theorem cooccurrence_matrix_counts:
  assumes "\<forall>t\<in>set token_ids. 0 \<le> t \<and> t < int V" and "1 \<le> K"
  shows "\<exists>C. cooccurrence_matrix token_ids V K = Inr C \<and>
           (\<forall>i j. cooccurrence_count token_ids K i j \<le> 2 ^ 24 \<longrightarrow>
                  get_item C i j = real (cooccurrence_count token_ids K i j))"
proof -
  from assms(1) have tok: "list_all (index_ok V) token_ids"
    by (simp add: list_all_iff index_ok_def)
  have "\<forall>k\<in>set [1..K]. 1 \<le> k" by simp
  moreover have "shape (csc_matrix_empty (V, V) :: real csc_matrix) = (V, V)"
    by (simp add: csc_matrix_empty_def)
  ultimately obtain C where
    C: "cooccurrence_loop token_ids [1..K] (csc_matrix_empty (V, V)) = Inr C"
    and g: "\<And>i j n. get_item (csc_matrix_empty (V, V) :: real csc_matrix) i j = real n \<Longrightarrow>
         n + sum_list (map (\<lambda>k. pair_count token_ids (nat k) i j + pair_count token_ids (nat k) j i) [1..K])
           \<le> 2 ^ 24 \<Longrightarrow>
         get_item C i j =
           real (n + sum_list (map (\<lambda>k. pair_count token_ids (nat k) i j + pair_count token_ids (nat k) j i) [1..K]))"
    using cooccurrence_loop_exact[OF tok, of "[1..K]" "csc_matrix_empty (V, V)"] by blast
  have "get_item C i j = real (cooccurrence_count token_ids K i j)"
    if "cooccurrence_count token_ids K i j \<le> 2 ^ 24" for i j
    using g[of i j 0] that by (simp add: get_item_empty cooccurrence_count_def)
  then show ?thesis using C by (auto simp: cooccurrence_matrix_def)
qed

theorem cooccurrence_matrix_counts_witness:
  "\<exists>C. cooccurrence_matrix [0, 1, 0, 1, 1] 2 2 = Inr C \<and>
      get_item C 0 1 = 4 \<and> get_item C 0 0 = 2 \<and> get_item C 1 1 = 4 \<and> get_item C 1 0 = 4"
proof -
  have c: "cooccurrence_count [0, 1, 0, 1, 1] 2 0 1 = 4" "cooccurrence_count [0, 1, 0, 1, 1] 2 0 0 = 2"
     "cooccurrence_count [0, 1, 0, 1, 1] 2 1 1 = 4" "cooccurrence_count [0, 1, 0, 1, 1] 2 1 0 = 4"
    by (simp_all add: cooccurrence_count_def pair_count_def upto_2 upt_rec[of _ "Suc _"] del: upt_Suc)
  have "\<forall>t\<in>set [0, 1, 0, 1, 1]. 0 \<le> t \<and> t < int 2" by simp
  from cooccurrence_matrix_counts[OF this, of 2] obtain C where
    C: "cooccurrence_matrix [0, 1, 0, 1, 1] 2 2 = Inr C"
    and g: "\<And>i j. cooccurrence_count [0, 1, 0, 1, 1] 2 i j \<le> 2 ^ 24 \<Longrightarrow>
              get_item C i j = real (cooccurrence_count [0, 1, 0, 1, 1] 2 i j)"
    by auto
  have "get_item C 0 1 = 4" "get_item C 0 0 = 2" "get_item C 1 1 = 4" "get_item C 1 0 = 4"
    using g[of 0 1] g[of 0 0] g[of 1 1] g[of 1 0] unfolding c by simp_all
  then show ?thesis using C by blast
qed

text \<open>
  Claim C2. For a token stream whose values all lie in \<open>[0, V)\<close> and a window
  \<open>K \<ge> 1\<close>, the matrix returned is symmetric: \<open>C[i,j] = C[j,i]\<close> for every pair.
\<close>

theorem cooccurrence_matrix_symmetric:
  assumes "\<forall>t\<in>set token_ids. 0 \<le> t \<and> t < int V" and "1 \<le> K"
  shows "\<exists>C. cooccurrence_matrix token_ids V K = Inr C \<and>
           (\<forall>i j. get_item C i j = get_item C j i)"
proof -
  from assms(1) have tok: "list_all (index_ok V) token_ids"
    by (simp add: list_all_iff index_ok_def)
  have "\<forall>k\<in>set [1..K]. 1 \<le> k" by simp
  moreover have "shape (csc_matrix_empty (V, V) :: real csc_matrix) = (V, V)"
    by (simp add: csc_matrix_empty_def)
  moreover have "\<forall>i j. get_item (csc_matrix_empty (V, V) :: real csc_matrix) i j
      = get_item (csc_matrix_empty (V, V)) j i"
    by (simp add: get_item_empty)
  ultimately show ?thesis
    unfolding cooccurrence_matrix_def by (rule cooccurrence_loop_symmetric[OF tok])
qed

theorem cooccurrence_matrix_symmetric_witness:
  "\<exists>C. cooccurrence_matrix [0, 1, 0, 1, 1] 2 2 = Inr C \<and> get_item C 0 1 = get_item C 1 0"
proof -
  have "\<forall>t\<in>set [0, 1, 0, 1, 1]. 0 \<le> t \<and> t < int 2" by simp
  from cooccurrence_matrix_symmetric[OF this, of 2] show ?thesis by auto
qed

text \<open>
  Claim C10. For a token stream whose values all lie in \<open>[0, V)\<close> and a window
  \<open>K \<ge> 1\<close>, every diagonal entry \<open>C[i,i]\<close> of the matrix returned is an even
  integer: a self co-occurrence is counted once forward and once transposed.
\<close>

theorem cooccurrence_matrix_diagonal_even:
  assumes "\<forall>t\<in>set token_ids. 0 \<le> t \<and> t < int V" and "1 \<le> K"
  shows "\<exists>C. cooccurrence_matrix token_ids V K = Inr C \<and>
           (\<forall>i. \<exists>n::nat. even n \<and> get_item C i i = real n)"
proof -
  from assms(1) have tok: "list_all (index_ok V) token_ids"
    by (simp add: list_all_iff index_ok_def)
  have "\<forall>k\<in>set [1..K]. 1 \<le> k" by simp
  moreover have "shape (csc_matrix_empty (V, V) :: real csc_matrix) = (V, V)"
    by (simp add: csc_matrix_empty_def)
  moreover have "\<forall>i. \<exists>n::nat. even n \<and> get_item (csc_matrix_empty (V, V) :: real csc_matrix) i i = real n"
    by (simp add: get_item_empty)
  ultimately show ?thesis
    unfolding cooccurrence_matrix_def by (rule cooccurrence_loop_diagonal[OF tok])
qed

theorem cooccurrence_matrix_diagonal_even_witness:
  "\<exists>C. cooccurrence_matrix [0, 0, 1] 2 1 = Inr C \<and> (\<exists>n::nat. even n \<and> get_item C 0 0 = real n)"
proof -
  have "\<forall>t\<in>set [0, 0, 1]. 0 \<le> t \<and> t < int 2" by simp
  from cooccurrence_matrix_diagonal_even[OF this, of 1] show ?thesis by auto
qed

text \<open>
  Claim C7 says that a non-positive window makes \<^verbatim>\<open>cooccurrence_matrix\<close> fail.
  The function has no check of \<open>K\<close>: \<^verbatim>\<open>range(1, K+1)\<close> is empty, the loop body
  never runs and the empty accumulator is returned.
\<close>

theorem cooccurrence_matrix_window_counterexample:
  "cooccurrence_matrix [0, 1] 2 0 = Inr \<lparr>shape = (2, 2), entries = []\<rparr>"
  by (simp add: cooccurrence_matrix_def csc_matrix_empty_def)

text \<open>
  Claim C7, amended. For every window \<open>K \<le> 0\<close>, every token stream and every
  vocabulary size, \<^verbatim>\<open>cooccurrence_matrix\<close> raises nothing and returns the all-zero
  \<open>V \<times> V\<close> matrix.
\<close>

theorem cooccurrence_matrix_nonpositive_window:
  "K \<le> 0 \<Longrightarrow> cooccurrence_matrix token_ids V K = Inr (csc_matrix_empty (V, V))"
  by (simp add: cooccurrence_matrix_def)

theorem cooccurrence_matrix_nonpositive_window_witness:
  "cooccurrence_matrix [5, -3, 0] 2 (- 1) = Inr (csc_matrix_empty (2, 2))"
  using cooccurrence_matrix_nonpositive_window[of "- 1" "[5, -3, 0]" 2] by simp

lemma cooccurrence_loop_short:
  assumes "length xs \<le> 1" and "\<forall>k\<in>set ks. 1 \<le> k"
  shows "cooccurrence_loop xs ks (csc_matrix_empty (V, V)) = Inr (csc_matrix_empty (V, V))"
  using assms(2)
proof (induction ks)
  case Nil
  then show ?case by simp
next
  case (Cons k ks)
  then have k: "1 \<le> k" by simp
  have e: "slice_to xs (- k) = []" "slice_from xs k = []"
    using assms(1) k by (simp_all add: slice_to_neg slice_from_pos)
  have P: "csc_matrix_coo f32_add (ones_like ([]::int list)) [] [] (V, V)
             = Inr (csc_matrix_empty (V, V))"
    by (simp add: csc_matrix_coo_def ones_like_def sum_duplicates_def csc_matrix_empty_def)
  have T: "transpose_csc (csc_matrix_empty (V, V) :: real csc_matrix) = csc_matrix_empty (V, V)"
    by (simp add: transpose_csc_def csc_matrix_empty_def)
  have A: "add_csc f32_add (csc_matrix_empty (V, V)) (csc_matrix_empty (V, V))
             = Inr (csc_matrix_empty (V, V))"
    by (simp add: add_csc_def csc_matrix_empty_def)
  have sh: "shape (csc_matrix_empty (V, V) :: real csc_matrix) = (V, V)"
    by (simp add: csc_matrix_empty_def)
  show ?case using Cons by (simp add: e P T A sh)
qed

lemma out_of_range_in_slices:
  assumes "2 \<le> length xs" and "t \<in> set xs"
  shows "t \<in> set (take (length xs - 1) xs) \<or> t \<in> set (drop 1 xs)"
proof -
  from assms(2) obtain l where l: "l < length xs" "xs ! l = t"
    by (auto simp: in_set_conv_nth)
  show ?thesis
  proof (cases "l < length xs - 1")
    case True
    then have "take (length xs - 1) xs ! l = t" using l by simp
    moreover have "l < length (take (length xs - 1) xs)" using True by simp
    ultimately show ?thesis by (metis nth_mem)
  next
    case False
    then have "l = length xs - 1" using l by simp
    then have eq: "1 + (length xs - 2) = l" using assms(1) by arith
    have "drop 1 xs ! (length xs - 2) = xs ! (1 + (length xs - 2))"
      using assms(1) by (intro nth_drop) simp
    then have "drop 1 xs ! (length xs - 2) = t" using l(2) by (simp only: eq)
    moreover have "length xs - 2 < length (drop 1 xs)" using assms(1) by simp
    ultimately show ?thesis by (metis nth_mem)
  qed
qed

text \<open>
  With a token outside \<open>[0, V)\<close>, at least two tokens and \<open>K \<ge> 1\<close>, the constructor
  fails at the first offset: in the conversion of the indices when one of them does
  not fit in 64 bits, in the check of the bounds otherwise.
\<close>

lemma cooccurrence_matrix_first_offset_error:
  assumes "\<exists>t\<in>set token_ids. t < 0 \<or> int V \<le> t" and "2 \<le> length token_ids" and "1 \<le> K"
  shows "cooccurrence_matrix token_ids V K =
           Inl (if list_all (converts V) token_ids then ValueError else OverflowError)"
proof -
  let ?i = "take (length token_ids - 1) token_ids" and ?j = "drop 1 token_ids"
  from assms(1) obtain t where t: "t \<in> set token_ids" "\<not> index_ok V t"
    by (auto simp: index_ok_def)
  have up: "[1..K] = 1 # [2..K]" using assms(3) by (simp add: upto.simps)
  have sl: "slice_to token_ids (- 1) = ?i" "slice_from token_ids 1 = ?j"
    by (simp_all add: slice_to_neg slice_from_pos)
  have cover: "set token_ids = set ?i \<union> set ?j"
    using out_of_range_in_slices[OF assms(2)]
    by (auto dest: in_set_takeD in_set_dropD)
  then have conv: "list_all (converts V) token_ids
      \<longleftrightarrow> list_all (converts V) ?i \<and> list_all (converts V) ?j"
    by (auto simp: list_all_iff)
  have bad: "\<not> list_all (index_ok V) ?i \<or> \<not> list_all (index_ok V) ?j"
    using t cover by (auto simp: list_all_iff)
  have "csc_matrix_coo f32_add (ones_like ?i) ?i ?j (V, V)
      = Inl (if list_all (converts V) token_ids then ValueError else OverflowError)"
    using bad by (auto simp: csc_matrix_coo_def conv ones_like_def)
  then show ?thesis
    by (simp add: cooccurrence_matrix_def up sl csc_matrix_empty_def)
qed

lemma cooccurrence_matrix_value_error: "cooccurrence_matrix [0, 7, 1] 3 2 = Inl ValueError"
  using cooccurrence_matrix_first_offset_error[of "[0, 7, 1]" 3 2]
  by (simp add: converts_def fits_int64_def)

lemma cooccurrence_matrix_overflow_error:
  "cooccurrence_matrix [0, 2 ^ 70] 3 1 = Inl OverflowError"
  using cooccurrence_matrix_first_offset_error[of "[0, 2 ^ 70]" 3 1]
  by (simp add: converts_def fits_int64_def index_ok_def)

text \<open>
  Claim C8 says that a token stream with a value outside \<open>[0, V)\<close> always makes
  \<^verbatim>\<open>cooccurrence_matrix\<close> fail. The only checks are those the sparse constructor
  makes on the indices it is given; a stream of one token forms no pair, so its token
  is never given to the constructor.
\<close>

theorem cooccurrence_matrix_out_of_range_counterexample:
  "cooccurrence_matrix [7] 3 1 = Inr \<lparr>shape = (3, 3), entries = []\<rparr>"
  by (simp add: cooccurrence_matrix_def csc_matrix_empty_def upto.simps slice_to_def
      slice_from_def ones_like_def csc_matrix_coo_def sum_duplicates_def transpose_csc_def
      add_csc_def)

text \<open>
  Claim C8, amended. For a token stream with at least one value outside \<open>[0, V)\<close>:
  when the stream has at least two tokens and \<open>K \<ge> 1\<close>, \<^verbatim>\<open>cooccurrence_matrix\<close>
  fails with an error (at the first offset); otherwise no pair is formed and it
  returns the all-zero matrix. In neither case is a count stored for a wrapped or
  clipped index.
\<close>

theorem cooccurrence_matrix_out_of_range:
  assumes "\<exists>t\<in>set token_ids. t < 0 \<or> int V \<le> t"
  shows "(2 \<le> length token_ids \<and> 1 \<le> K \<longrightarrow> (\<exists>e. cooccurrence_matrix token_ids V K = Inl e)) \<and>
         (\<not> (2 \<le> length token_ids \<and> 1 \<le> K) \<longrightarrow>
            cooccurrence_matrix token_ids V K = Inr (csc_matrix_empty (V, V)))"
proof (cases "2 \<le> length token_ids \<and> 1 \<le> K")
  case True
  then show ?thesis
    using cooccurrence_matrix_first_offset_error[OF assms, of K] by simp
next
  case False
  show ?thesis
  proof (cases "1 \<le> K")
    case True
    with False have "length token_ids \<le> 1" by simp
    moreover have "\<forall>k\<in>set [1..K]. 1 \<le> k" by simp
    ultimately show ?thesis using False
      by (simp add: cooccurrence_matrix_def cooccurrence_loop_short)
  next
    case False
    then show ?thesis by (simp add: cooccurrence_matrix_def)
  qed
qed

theorem cooccurrence_matrix_out_of_range_witness:
  "(\<exists>e. cooccurrence_matrix [0, 7, 1] 3 2 = Inl e) \<and>
   (\<exists>e. cooccurrence_matrix [0, 2 ^ 70] 3 1 = Inl e) \<and>
   cooccurrence_matrix [- 1] 3 2 = Inr (csc_matrix_empty (3, 3))"
  using cooccurrence_matrix_out_of_range[of "[0, 7, 1]" 3 2]
    cooccurrence_matrix_out_of_range[of "[0, 2 ^ 70]" 3 1]
    cooccurrence_matrix_out_of_range[of "[- 1]" 3 2]
  by simp

section \<open>The co-occurrence matrix is a canonical count matrix\<close>

text \<open>
  Whatever \<^verbatim>\<open>cooccurrence_matrix\<close> returns is in canonical form, has no negative
  entry and has the shape \<open>(V, V)\<close>, so it is an input the properties of \<^verbatim>\<open>PPMI\<close>
  below apply to.
\<close>

lemma canonical_keyed:
  assumes "\<forall>p\<in>set ks. fst p < fst shp \<and> snd p < snd shp"
  shows "canonical \<lparr>shape = shp, entries = filter Q (map (\<lambda>p. (p, f p)) (remdups ks))\<rparr>"
proof -
  have "map fst (filter Q (map (\<lambda>p. (p, f p)) (remdups ks)))
      = filter (\<lambda>p. Q (p, f p)) (remdups ks)"
    by (induction ks) auto
  then have "distinct (map fst (filter Q (map (\<lambda>p. (p, f p)) (remdups ks))))"
    by simp
  then show ?thesis using assms by (auto simp: canonical_def list_all_iff)
qed

lemma canonical_coo:
  assumes "csc_matrix_coo add data rows cols shp = Inr M"
  shows "canonical M"
proof -
  let ?ts = "zip (zip (map nat rows) (map nat cols)) data"
  from assms have ok: "list_all (index_ok (fst shp)) rows" "list_all (index_ok (snd shp)) cols"
    and M: "M = \<lparr>shape = shp, entries = sum_duplicates add ?ts\<rparr>"
    by (auto simp: csc_matrix_coo_def split: if_splits)
  have "\<forall>p\<in>set (map fst ?ts). fst p < fst shp \<and> snd p < snd shp"
  proof
    fix p assume "p \<in> set (map fst ?ts)"
    then have "p \<in> set (zip (map nat rows) (map nat cols))"
      by (auto dest: set_zip_leftD)
    then have "(fst p, snd p) \<in> set (zip (map nat rows) (map nat cols))"
      by simp
    then have "fst p \<in> set (map nat rows)" "snd p \<in> set (map nat cols)"
      by (rule set_zip_leftD, rule set_zip_rightD)
    then show "fst p < fst shp \<and> snd p < snd shp"
      using ok by (auto simp: list_all_iff index_ok_def)
  qed
  from canonical_keyed[OF this, of "\<lambda>_. True" "coo_sum add ?ts"] show ?thesis
    by (simp add: M sum_duplicates_def)
qed

lemma canonical_transpose:
  assumes "canonical M"
  shows "canonical (transpose_csc M)"
proof -
  have "map fst (entries (transpose_csc M)) = map prod.swap (map fst (entries M))"
    by (simp add: transpose_csc_def prod.swap_def)
  moreover have "distinct (map prod.swap (map fst (entries M)))"
    using assms by (simp add: canonical_def distinct_map del: map_map)
  ultimately have "distinct (map fst (entries (transpose_csc M)))" by simp
  moreover have "list_all (\<lambda>e. fst (fst e) < fst (shape (transpose_csc M))
        \<and> snd (fst e) < snd (shape (transpose_csc M))) (entries (transpose_csc M))"
    using assms by (auto simp: canonical_def transpose_csc_def list_all_iff)
  ultimately show ?thesis by (simp add: canonical_def)
qed

lemma canonical_add:
  assumes "canonical A" and "canonical B" and "add_csc add A B = Inr S"
  shows "canonical S"
proof -
  from assms(3) have sh: "shape A = shape B"
    and S: "S = \<lparr>shape = shape A,
         entries = filter (\<lambda>e. snd e \<noteq> 0)
           (map (\<lambda>p. (p, add (get_item A (fst p) (snd p)) (get_item B (fst p) (snd p))))
              (remdups (map fst (entries A) @ map fst (entries B))))\<rparr>"
    by (auto simp: add_csc_def split: if_splits)
  have "\<forall>p\<in>set (map fst (entries A) @ map fst (entries B)).
          fst p < fst (shape A) \<and> snd p < snd (shape A)"
    using assms(1,2) sh by (auto simp: canonical_def list_all_iff)
  from canonical_keyed[OF this] show ?thesis unfolding S .
qed

lemma get_item_nonnegative:
  assumes "nonnegative M"
  shows "0 \<le> get_item M i j"
proof (cases "map_of (entries M) (i, j)")
  case None
  then show ?thesis by (simp add: get_item_def)
next
  case (Some v)
  then have "((i, j), v) \<in> set (entries M)" by (rule map_of_SomeD)
  then have "0 \<le> v" using assms by (auto simp: nonnegative_def list_all_iff)
  then show ?thesis using Some by (simp add: get_item_def)
qed

lemma nonnegative_coo_ones:
  assumes "csc_matrix_coo f32_add (ones_like xs) rows cols shp = Inr M"
  shows "nonnegative M"
proof -
  let ?ts = "zip (zip (map nat rows) (map nat cols)) (ones_like xs)"
  from assms have M: "entries M = sum_duplicates f32_add ?ts"
    by (auto simp: csc_matrix_coo_def split: if_splits)
  have "\<forall>t\<in>set ?ts. snd t = 1"
    by (auto simp: ones_like_def dest!: set_zip_rightD)
  then have "0 \<le> coo_sum f32_add ?ts p" for p
    by (simp only: coo_sum_ones)
  then show ?thesis
    by (auto simp: nonnegative_def M sum_duplicates_def list_all_iff)
qed

lemma nonnegative_transpose: "nonnegative M \<Longrightarrow> nonnegative (transpose_csc M)"
  by (auto simp: nonnegative_def transpose_csc_def list_all_iff)

lemma nonnegative_add:
  assumes "nonnegative A" and "nonnegative B" and "add_csc f32_add A B = Inr S"
  shows "nonnegative S"
proof -
  from assms(3) have S: "entries S = filter (\<lambda>e. snd e \<noteq> 0)
           (map (\<lambda>p. (p, f32_add (get_item A (fst p) (snd p)) (get_item B (fst p) (snd p))))
              (remdups (map fst (entries A) @ map fst (entries B))))"
    by (auto simp: add_csc_def split: if_splits)
  have "0 \<le> f32_add (get_item A i j) (get_item B i j)" for i j
    unfolding f32_add_def
    using get_item_nonnegative[OF assms(1), of i j] get_item_nonnegative[OF assms(2), of i j]
    by (intro f32_nonneg) simp
  then show ?thesis
    by (auto simp: nonnegative_def S list_all_iff)
qed

lemma cooccurrence_loop_canonical:
  "canonical C \<Longrightarrow> nonnegative C \<Longrightarrow> cooccurrence_loop xs ks C = Inr C' \<Longrightarrow>
     canonical C' \<and> nonnegative C' \<and> shape C' = shape C"
proof (induction ks arbitrary: C)
  case Nil
  then show ?case by simp
next
  case (Cons k ks)
  from Cons.prems(3) obtain P S C1 where
    P: "csc_matrix_coo f32_add (ones_like (slice_to xs (- k))) (slice_to xs (- k))
          (slice_from xs k) (shape C) = Inr P"
    and S: "add_csc f32_add P (transpose_csc P) = Inr S"
    and C1: "add_csc f32_add C S = Inr C1"
    and r: "cooccurrence_loop xs ks C1 = Inr C'"
    by (auto simp: Let_def split: sum.splits)
  have cP: "canonical P" and nP: "nonnegative P"
    using P by (rule canonical_coo, rule nonnegative_coo_ones)
  have cS: "canonical S"
    by (rule canonical_add[OF cP canonical_transpose[OF cP] S])
  have nS: "nonnegative S"
    by (rule nonnegative_add[OF nP nonnegative_transpose[OF nP] S])
  have "canonical C1" "nonnegative C1"
    using canonical_add[OF Cons.prems(1) cS C1] nonnegative_add[OF Cons.prems(2) nS C1]
    by simp_all
  from Cons.IH[OF this r] shape_add[OF C1] show ?case by simp
qed

lemma cooccurrence_matrix_canonical:
  assumes "cooccurrence_matrix token_ids V K = Inr C"
  shows "canonical C \<and> nonnegative C \<and> shape C = (V, V)"
proof -
  have "canonical (csc_matrix_empty (V, V) :: real csc_matrix)"
    "nonnegative (csc_matrix_empty (V, V))"
    by (simp_all add: canonical_def nonnegative_def csc_matrix_empty_def)
  from cooccurrence_loop_canonical[OF this] assms show ?thesis
    by (simp add: cooccurrence_matrix_def csc_matrix_empty_def)
qed

section \<open>Properties of the sums in single precision\<close>

text \<open>
  In whatever order the additions are made, the rounded sum of non-negative values is
  not negative, and it is positive when one of the values is.
\<close>

lemma rounded_sum_of_nonneg:
  "rounded_sum_of xs r \<Longrightarrow> \<forall>x\<in>set xs. 0 \<le> x \<Longrightarrow> 0 \<le> r"
proof (induction rule: rounded_sum_of.induct)
  case none
  then show ?case by simp
next
  case (one x)
  then show ?case by simp
next
  case (add xs a ys b)
  then have "0 \<le> a + b" by simp
  then show ?case unfolding f32_add_def by (rule f32_nonneg)
next
  case (reorder xs a ys)
  then show ?case using mset_eq_setD[OF reorder.hyps(2)] by simp
qed

lemma rounded_sum_of_positive:
  "rounded_sum_of xs r \<Longrightarrow> \<forall>x\<in>set xs. 0 \<le> x \<Longrightarrow> \<exists>x\<in>set xs. 0 < x \<Longrightarrow> 0 < r"
proof (induction rule: rounded_sum_of.induct)
  case none
  then show ?case by simp
next
  case (one x)
  then show ?case by simp
next
  case (add xs a ys b)
  have a: "0 \<le> a" and b: "0 \<le> b"
    using add.hyps add.prems(1) by (auto intro: rounded_sum_of_nonneg)
  from add.prems(2) have "(\<exists>x\<in>set xs. 0 < x) \<or> (\<exists>x\<in>set ys. 0 < x)" by auto
  then have "0 < a \<or> 0 < b" using add.IH add.prems(1) by auto
  then have "0 < a + b" using a b by linarith
  then show ?case unfolding f32_add_def by (rule f32_pos)
next
  case (reorder xs a ys)
  then show ?case using mset_eq_setD[OF reorder.hyps(2)] by simp
qed

lemma rounded_sum_positive:
  assumes "float32_sum s" and "\<forall>x\<in>set xs. 0 \<le> x" and "x \<in> set xs" and "0 < x"
  shows "0 < s xs"
proof -
  have "rounded_sum_of xs (s xs)" using assms(1) by (simp add: float32_sum_def)
  then show ?thesis using assms(2,3,4) by (intro rounded_sum_of_positive) auto
qed

lemma rounded_sum_of_foldl:
  "rounded_sum_of xs r \<Longrightarrow> rounded_sum_of (xs @ ys) (foldl f32_add r ys)"
proof (induction ys arbitrary: xs r)
  case Nil
  then show ?case by simp
next
  case (Cons y ys)
  have "rounded_sum_of (xs @ [y]) (f32_add r y)"
    by (rule rounded_sum_of.add[OF Cons.prems rounded_sum_of.one])
  from Cons.IH[OF this] show ?case by simp
qed

lemma rounded_sum_of_pair: "rounded_sum_of [a, b] (f32_add a b)"
  using rounded_sum_of.add[OF rounded_sum_of.one[of a] rounded_sum_of.one[of b]] by simp

lemma float32_sum_blocked_sum: "float32_sum blocked_sum"
  unfolding float32_sum_def
proof
  fix xs :: "real list"
  show "rounded_sum_of xs (blocked_sum xs)"
  proof (cases "\<exists>a b c d e f g h rest. xs = a # b # c # d # e # f # g # h # rest")
    case True
    then obtain a b c d e f g h rest where
      xs: "xs = a # b # c # d # e # f # g # h # rest" by blast
    have q1: "rounded_sum_of [a, b, c, d] (f32_add (f32_add a b) (f32_add c d))"
      using rounded_sum_of.add[OF rounded_sum_of_pair[of a b] rounded_sum_of_pair[of c d]]
      by simp
    have q2: "rounded_sum_of [e, f, g, h] (f32_add (f32_add e f) (f32_add g h))"
      using rounded_sum_of.add[OF rounded_sum_of_pair[of e f] rounded_sum_of_pair[of g h]]
      by simp
    have "rounded_sum_of [a, b, c, d, e, f, g, h]
        (f32_add (f32_add (f32_add a b) (f32_add c d)) (f32_add (f32_add e f) (f32_add g h)))"
      using rounded_sum_of.add[OF q1 q2] by simp
    from rounded_sum_of_foldl[OF this, of rest] show ?thesis
      by (simp add: xs blocked_sum_def)
  next
    case False
    then have "blocked_sum xs = foldl f32_add 0 xs"
      by (auto simp: blocked_sum_def split: list.splits)
    then show ?thesis
      using rounded_sum_of_foldl[OF rounded_sum_of.none, of xs] by simp
  qed
qed

lemma float32_sums_blocked_sums: "float32_sums blocked_sums"
  by (simp add: float32_sums_def blocked_sums_def float32_sum_blocked_sum)

section \<open>Properties of the PPMI transform\<close>

lemma filter_eq_distinct:
  "distinct ks \<Longrightarrow> q \<in> set ks \<Longrightarrow> filter (\<lambda>p. p = q) ks = [q]"
proof (induction ks)
  case Nil
  then show ?case by simp
next
  case (Cons k ks)
  show ?case
  proof (cases "k = q")
    case True
    then have "q \<notin> set ks" using Cons.prems(1) by simp
    then have "filter (\<lambda>p. p = q) ks = []" by (auto simp: filter_empty_conv)
    then show ?thesis using True by simp
  next
    case False
    then show ?thesis using Cons by simp
  qed
qed

lemma coo_sum_distinct:
  assumes "distinct ks" and "q \<in> set ks"
  shows "coo_sum add (map (\<lambda>p. (p, f p)) ks) q = f q"
proof -
  have "filter (\<lambda>t. fst t = q) (map (\<lambda>p. (p, f p)) ks)
      = map (\<lambda>p. (p, f p)) (filter (\<lambda>p. p = q) ks)"
    by (simp add: filter_map comp_def)
  then show ?thesis
    by (simp add: coo_sum_def filter_eq_distinct[OF assms])
qed

lemma sum_duplicates_distinct:
  assumes "distinct ks"
  shows "sum_duplicates add (map (\<lambda>p. (p, f p)) ks) = map (\<lambda>p. (p, f p)) ks"
proof -
  have "map fst (map (\<lambda>p. (p, f p)) ks) = ks" by (simp add: comp_def)
  then have "sum_duplicates add (map (\<lambda>p. (p, f p)) ks)
      = map (\<lambda>p. (p, coo_sum add (map (\<lambda>p. (p, f p)) ks) p)) ks"
    using assms by (simp add: sum_duplicates_def distinct_remdups_id)
  also have "\<dots> = map (\<lambda>p. (p, f p)) ks"
    by (rule map_cong) (simp_all add: coo_sum_distinct[OF assms])
  finally show ?thesis .
qed

lemma nonzero_distinct: "canonical C \<Longrightarrow> distinct (nonzero C)"
  by (simp add: canonical_def nonzero_def distinct_map_filter)

lemma nonzero_in_shape:
  assumes "canonical C" and "p \<in> set (nonzero C)"
  shows "fst p < fst (shape C) \<and> snd p < snd (shape C)"
  using assms by (auto simp: canonical_def nonzero_def list_all_iff)

lemma nonzero_iff:
  assumes "canonical C"
  shows "(i, j) \<in> set (nonzero C) \<longleftrightarrow> get_item C i j \<noteq> 0"
proof
  assume "(i, j) \<in> set (nonzero C)"
  then obtain v where v: "((i, j), v) \<in> set (entries C)" "v \<noteq> 0"
    by (auto simp: nonzero_def)
  with assms have "map_of (entries C) (i, j) = Some v"
    by (simp add: canonical_def)
  then show "get_item C i j \<noteq> 0" using v(2) by (simp add: get_item_def)
next
  assume "get_item C i j \<noteq> 0"
  then obtain v where "map_of (entries C) (i, j) = Some v" "v \<noteq> 0"
    by (auto simp: get_item_def split: option.splits)
  then have "((i, j), v) \<in> set (entries C)" "v \<noteq> 0"
    by (auto dest: map_of_SomeD)
  then show "(i, j) \<in> set (nonzero C)"
    by (force simp: nonzero_def)
qed

lemma get_item_stored:
  assumes "get_item C i j \<noteq> 0"
  shows "((i, j), get_item C i j) \<in> set (entries C)"
  using assms by (auto simp: get_item_def split: option.splits dest: map_of_SomeD)

lemma zip_positions:
  "zip (zip (map nat (map (\<lambda>p. int (fst p)) ks)) (map nat (map (\<lambda>p. int (snd p)) ks))) (map f ks)
     = map (\<lambda>p. (p, f p)) ks"
  by (induction ks) simp_all

lemma PPMI_no_nonzero: "nonzero C = [] \<Longrightarrow> PPMI lib C = Inl ValueError"
  by (simp add: PPMI_def)

lemma PPMI_entries:
  assumes "canonical C" and "nonzero C \<noteq> []"
  shows "PPMI lib C = Inr \<lparr>shape = shape C,
            entries = filter (\<lambda>e. snd e \<noteq> 0)
              (map (\<lambda>p. (p, np_maximum 0 (pmi lib C p))) (nonzero C))\<rparr>"
proof -
  let ?ijs = "nonzero C"
  let ?f = "\<lambda>p. np_maximum 0 (pmi lib C p)"
  have r: "list_all (index_ok (fst (shape C))) (map (\<lambda>p. int (fst p)) ?ijs)"
    and c: "list_all (index_ok (snd (shape C))) (map (\<lambda>p. int (snd p)) ?ijs)"
    using nonzero_in_shape[OF assms(1)] by (auto simp: list_all_iff index_ok_def)
  have z: "zip (zip (map nat (map (\<lambda>p. int (fst p)) ?ijs)) (map nat (map (\<lambda>p. int (snd p)) ?ijs)))
             (map ?f ?ijs) = map (\<lambda>p. (p, ?f p)) ?ijs"
    by (rule zip_positions)
  show ?thesis
    using r c index_ok_converts[OF r] index_ok_converts[OF c] assms(2)
    by (simp add: PPMI_def Let_def csc_matrix_coo_def z
        sum_duplicates_distinct[OF nonzero_distinct[OF assms(1)]] eliminate_zeros_def
        del: map_map)
qed

lemma row_sums_nth:
  "i < fst (shape C) \<Longrightarrow>
     row_sums lib C ! i = sum_axis1 lib (map snd (filter (\<lambda>e. fst (fst e) = i) (entries C)))"
  by (simp add: row_sums_def)

lemma col_sums_nth:
  "j < snd (shape C) \<Longrightarrow>
     col_sums lib C ! j = sum_axis0 lib (map snd (filter (\<lambda>e. snd (fst e) = j) (entries C)))"
  by (simp add: col_sums_def)

lemma stored_sum_positive:
  assumes "float32_sum s" and "nonnegative C" and "(p, v) \<in> set (entries C)" and "Q (p, v)"
    and "0 < v"
  shows "0 < s (map snd (filter Q (entries C)))"
proof (rule rounded_sum_positive[OF assms(1) _ _ assms(5)])
  show "v \<in> set (map snd (filter Q (entries C)))"
    using assms(3,4) by force
  show "\<forall>x\<in>set (map snd (filter Q (entries C))). 0 \<le> x"
    using assms(2) by (auto simp: nonnegative_def list_all_iff)
qed

lemma nonzero_positive:
  assumes "float32_sums lib" and "canonical C" and "nonnegative C" and "(i, j) \<in> set (nonzero C)"
  shows "0 < get_item C i j \<and> 0 < row_sums lib C ! i \<and> 0 < col_sums lib C ! j
       \<and> 0 < matrix_sum lib C"
proof -
  have nz: "get_item C i j \<noteq> 0" using assms(2,4) by (simp add: nonzero_iff)
  have st: "((i, j), get_item C i j) \<in> set (entries C)"
    by (rule get_item_stored[OF nz])
  then have "0 \<le> get_item C i j"
    using assms(3) by (auto simp: nonnegative_def list_all_iff)
  with nz have pos: "0 < get_item C i j" by simp
  have sh: "i < fst (shape C)" "j < snd (shape C)"
    using nonzero_in_shape[OF assms(2,4)] by simp_all
  have rs: "float32_sum (sum_all lib)" "float32_sum (sum_axis0 lib)" "float32_sum (sum_axis1 lib)"
    using assms(1) by (simp_all add: float32_sums_def)
  have "0 < row_sums lib C ! i"
    unfolding row_sums_nth[OF sh(1)]
    by (rule stored_sum_positive[OF rs(3) assms(3) st _ pos]) simp
  moreover have "0 < col_sums lib C ! j"
    unfolding col_sums_nth[OF sh(2)]
    by (rule stored_sum_positive[OF rs(2) assms(3) st _ pos]) simp
  moreover have "0 < matrix_sum lib C"
    using stored_sum_positive[OF rs(1) assms(3) st, of "\<lambda>_. True"] pos
    by (simp add: matrix_sum_def)
  ultimately show ?thesis using pos by simp
qed

lemma pmi_finite:
  assumes "float32_sums lib" and "canonical C" and "nonnegative C" and "(i, j) \<in> set (nonzero C)"
  shows "0 < row_sums lib C ! i \<and> 0 < col_sums lib C ! j \<and> 0 < matrix_sum lib C
       \<and> 0 < get_item C i j * matrix_sum lib C / (row_sums lib C ! i * col_sums lib C ! j)
       \<and> pmi lib C (i, j) =
           Fin (ln (get_item C i j * matrix_sum lib C / (row_sums lib C ! i * col_sums lib C ! j)))"
proof -
  from nonzero_positive[OF assms]
  have c: "0 < get_item C i j" and r: "0 < row_sums lib C ! i" and cl: "0 < col_sums lib C ! j"
    and z: "0 < matrix_sum lib C"
    by simp_all
  have q: "0 < get_item C i j * matrix_sum lib C / (row_sums lib C ! i * col_sums lib C ! j)"
    using c r cl z by simp
  have d: "row_sums lib C ! i * col_sums lib C ! j \<noteq> 0" using r cl by simp
  have "pmi lib C (i, j) =
      Fin (ln (get_item C i j * matrix_sum lib C / (row_sums lib C ! i * col_sums lib C ! j)))"
    using q d by (simp add: pmi_def pmi_arg_def np_divide_def)
  then show ?thesis using r cl z q by simp
qed

lemma PPMI_get_item:
  assumes "canonical C" and "PPMI lib C = Inr P"
  shows "get_item P i j = (if get_item C i j \<noteq> 0 then np_maximum 0 (pmi lib C (i, j)) else 0)"
    and "(i, j) \<in> fst ` set (entries P) \<longleftrightarrow>
           get_item C i j \<noteq> 0 \<and> np_maximum 0 (pmi lib C (i, j)) \<noteq> 0"
    and "shape P = shape C"
proof -
  let ?f = "\<lambda>p. np_maximum 0 (pmi lib C p)"
  have ne: "nonzero C \<noteq> []" using assms(2) PPMI_no_nonzero[of C lib] by auto
  from assms PPMI_entries[OF assms(1) ne, of lib]
  have P: "P = \<lparr>shape = shape C,
      entries = filter (\<lambda>e. snd e \<noteq> 0) (map (\<lambda>p. (p, ?f p)) (nonzero C))\<rparr>"
    by simp
  have m: "map_of (entries P) (i, j) =
      (if get_item C i j \<noteq> 0 \<and> ?f (i, j) \<noteq> 0 then Some (?f (i, j)) else None)"
    unfolding P using map_of_keyed_filter[of "\<lambda>v. v \<noteq> 0" ?f "nonzero C" "(i, j)"]
    by (simp add: nonzero_iff[OF assms(1)])
  show "get_item P i j = (if get_item C i j \<noteq> 0 then ?f (i, j) else 0)"
    using m by (simp add: get_item_def[of P])
  show "(i, j) \<in> fst ` set (entries P) \<longleftrightarrow> get_item C i j \<noteq> 0 \<and> ?f (i, j) \<noteq> 0"
    using m map_of_eq_None_iff[of "entries P" "(i, j)"] by (auto split: if_splits)
  show "shape P = shape C" by (simp add: P)
qed

lemma PPMI_of_cooccurrence_matrix:
  assumes "cooccurrence_matrix token_ids V K = Inr C" and "nonzero C \<noteq> []"
  shows "\<exists>P. PPMI lib C = Inr P \<and> shape P = (V, V)"
proof -
  from cooccurrence_matrix_canonical[OF assms(1)]
  have c: "canonical C" and sh: "shape C = (V, V)" by simp_all
  from PPMI_entries[OF c assms(2)] obtain P where P: "PPMI lib C = Inr P" by blast
  then show ?thesis using PPMI_get_item(3)[OF c P] sh by simp
qed

text \<open>
  Claim C3 says that the properties of the result hold for every count matrix, with
  \<open>Z\<close>, \<open>Zr\<close> and \<open>Zc\<close> the sums of the entries. For a count matrix with no nonzero
  entry \<^verbatim>\<open>PPMI\<close> raises \<^verbatim>\<open>ValueError\<close> and there is no result. And the sums the
  code uses are \<^verbatim>\<open>float32\<close> sums: for the \<open>3 \<times> 3\<close> matrix whose entries are all
  \<open>c = 5592407\<close> the exact sums \<open>9 c\<close> and \<open>3 c\<close> satisfy \<open>c * Z = Zr * Zc\<close>, but
  they are rounded to \<open>50331664\<close> and \<open>16777220\<close>, and all nine entries of the result
  are stored with the positive value \<open>ln (c * 50331664 / 16777220^2)\<close>.
\<close>

theorem PPMI_entries_counterexample:
  "PPMI blocked_sums \<lparr>shape = (1, 1), entries = [((0, 0), 0)]\<rparr> = Inl ValueError \<and>
   (5592407::real) * (9 * 5592407) = (3 * 5592407) * (3 * 5592407) \<and>
   PPMI blocked_sums
     \<lparr>shape = (3, 3),
      entries = [((0, 0), 5592407), ((1, 0), 5592407), ((2, 0), 5592407),
                 ((0, 1), 5592407), ((1, 1), 5592407), ((2, 1), 5592407),
                 ((0, 2), 5592407), ((1, 2), 5592407), ((2, 2), 5592407)]\<rparr>
   = Inr \<lparr>shape = (3, 3),
          entries = [((0, 0), Fin (ln (17592196879703 / 17592194433025))),
                     ((1, 0), Fin (ln (17592196879703 / 17592194433025))),
                     ((2, 0), Fin (ln (17592196879703 / 17592194433025))),
                     ((0, 1), Fin (ln (17592196879703 / 17592194433025))),
                     ((1, 1), Fin (ln (17592196879703 / 17592194433025))),
                     ((2, 1), Fin (ln (17592196879703 / 17592194433025))),
                     ((0, 2), Fin (ln (17592196879703 / 17592194433025))),
                     ((1, 2), Fin (ln (17592196879703 / 17592194433025))),
                     ((2, 2), Fin (ln (17592196879703 / 17592194433025)))]\<rparr>"
proof -
  define C :: "real csc_matrix" where "C = \<lparr>shape = (3, 3),
      entries = [((0, 0), 5592407), ((1, 0), 5592407), ((2, 0), 5592407),
                 ((0, 1), 5592407), ((1, 1), 5592407), ((2, 1), 5592407),
                 ((0, 2), 5592407), ((1, 2), 5592407), ((2, 2), 5592407)]\<rparr>"
  have a: "PPMI blocked_sums \<lparr>shape = (1, 1), entries = [((0, 0), 0)]\<rparr> = Inl ValueError"
    by (simp add: PPMI_def nonzero_def)
  have b: "(5592407::real) * (9 * 5592407) = (3 * 5592407) * (3 * 5592407)"
    by simp
  have c: "canonical C" by (simp add: canonical_def C_def)
  have sh: "shape C = (3, 3)" by (simp add: C_def)
  have n: "nonzero C = [(0, 0), (1, 0), (2, 0), (0, 1), (1, 1), (2, 1), (0, 2), (1, 2), (2, 2)]"
    by (simp add: nonzero_def C_def)
  have ne: "nonzero C \<noteq> []" by (simp add: n)
  have z: "matrix_sum blocked_sums C = 50331664"
    by (simp add: matrix_sum_def blocked_sums_def blocked_sum_def f32_add_def f32_22369628
        f32_44739256 f32_50331663 C_def)
  have r: "row_sums blocked_sums C = [16777220, 16777220, 16777220]"
    by (simp add: row_sums_def blocked_sums_def blocked_sum_def f32_add_def f32_16777221
        upt_rec[of _ "numeral _"] C_def)
  have l: "col_sums blocked_sums C = [16777220, 16777220, 16777220]"
    by (simp add: col_sums_def blocked_sums_def blocked_sum_def f32_add_def f32_16777221
        upt_rec[of _ "numeral _"] C_def)
  have g: "get_item C i j = 5592407" if "i < 3" "j < 3" for i j
  proof -
    from that have "i = 0 \<or> i = 1 \<or> i = 2" "j = 0 \<or> j = 1 \<or> j = 2" by auto
    then show ?thesis by (auto simp: get_item_def C_def)
  qed
  have p: "np_maximum 0 (pmi blocked_sums C (i, j))
             = Fin (ln (17592196879703 / 17592194433025))" if "i < 3" "j < 3" for i j
  proof -
    from that have ij: "i = 0 \<or> i = 1 \<or> i = 2" "j = 0 \<or> j = 1 \<or> j = 2" by auto
    have "pmi_arg blocked_sums C (i, j) = (5592407 * 50331664, 16777220 * 16777220)"
      unfolding pmi_arg_def z r l fst_conv snd_conv g[OF that] using ij by auto
    then show ?thesis by (simp add: pmi_def np_divide_def)
  qed
  have d: "PPMI blocked_sums C = Inr \<lparr>shape = (3, 3),
          entries = [((0, 0), Fin (ln (17592196879703 / 17592194433025))),
                     ((1, 0), Fin (ln (17592196879703 / 17592194433025))),
                     ((2, 0), Fin (ln (17592196879703 / 17592194433025))),
                     ((0, 1), Fin (ln (17592196879703 / 17592194433025))),
                     ((1, 1), Fin (ln (17592196879703 / 17592194433025))),
                     ((2, 1), Fin (ln (17592196879703 / 17592194433025))),
                     ((0, 2), Fin (ln (17592196879703 / 17592194433025))),
                     ((1, 2), Fin (ln (17592196879703 / 17592194433025))),
                     ((2, 2), Fin (ln (17592196879703 / 17592194433025)))]\<rparr>"
    unfolding PPMI_entries[OF c ne] n sh by (simp add: p zero_npfloat_def)
  show ?thesis using a b d unfolding C_def by blast
qed

text \<open>
  Claim C3, amended. For every count matrix \<open>C\<close> with at least one nonzero entry,
  \<^verbatim>\<open>PPMI(C)\<close> returns a matrix of the shape of \<open>C\<close> in which every entry is a number
  \<open>\<ge> 0\<close>; at each position where \<open>C\<close> has a nonzero value \<open>c\<close> the entry is
  \<open>max(0, log(c * Z / (Zr[i] * Zc[j])))\<close>, where \<open>Z\<close>, \<open>Zr\<close> and \<open>Zc\<close> are the
  \<^verbatim>\<open>float32\<close> sums as the library returns them, in whatever order it adds; an
  entry that is zero is not stored, and it is zero in particular where
  \<open>c * Z = Zr[i] * Zc[j]\<close> for these sums; and every position that is zero in \<open>C\<close> is
  zero in the result.
\<close>

theorem PPMI_entries_correct:
  assumes "float32_sums lib" and "canonical C" and "nonnegative C" and "nonzero C \<noteq> []"
  shows "\<exists>P. PPMI lib C = Inr P \<and> shape P = shape C \<and>
     (\<forall>i j. \<exists>r. get_item P i j = Fin r \<and> 0 \<le> r) \<and>
     (\<forall>i j. get_item C i j \<noteq> 0 \<longrightarrow>
        get_item P i j = Fin (max 0 (ln (get_item C i j * matrix_sum lib C /
                                          (row_sums lib C ! i * col_sums lib C ! j))))) \<and>
     (\<forall>i j. get_item P i j = Fin 0 \<longrightarrow> (i, j) \<notin> fst ` set (entries P)) \<and>
     (\<forall>i j. get_item C i j \<noteq> 0 \<and>
        get_item C i j * matrix_sum lib C = row_sums lib C ! i * col_sums lib C ! j \<longrightarrow>
        get_item P i j = Fin 0) \<and>
     (\<forall>i j. get_item C i j = 0 \<longrightarrow> get_item P i j = Fin 0)"
proof -
  from PPMI_entries[OF assms(2,4)] obtain P where P: "PPMI lib C = Inr P" by blast
  note g = PPMI_get_item[OF assms(2) P]
  let ?q = "\<lambda>i j. get_item C i j * matrix_sum lib C / (row_sums lib C ! i * col_sums lib C ! j)"
  have v: "get_item P i j = Fin (max 0 (ln (?q i j)))" if "get_item C i j \<noteq> 0" for i j
  proof -
    from that have "(i, j) \<in> set (nonzero C)" by (simp add: nonzero_iff[OF assms(2)])
    from pmi_finite[OF assms(1,2,3) this] have "pmi lib C (i, j) = Fin (ln (?q i j))" by simp
    then show ?thesis using that by (simp add: g(1))
  qed
  have z: "get_item P i j = Fin 0" if "get_item C i j = 0" for i j
    using that by (simp add: g(1) zero_npfloat_def)
  have n: "\<exists>r. get_item P i j = Fin r \<and> 0 \<le> r" for i j
    by (cases "get_item C i j = 0") (simp_all add: z v)
  have a: "(i, j) \<notin> fst ` set (entries P)" if "get_item P i j = Fin 0" for i j
  proof
    assume "(i, j) \<in> fst ` set (entries P)"
    then have "get_item C i j \<noteq> 0" and "np_maximum 0 (pmi lib C (i, j)) \<noteq> 0"
      by (simp_all add: g(2))
    then have "get_item P i j \<noteq> 0" by (simp add: g(1))
    then show False using that by (simp add: zero_npfloat_def)
  qed
  have e: "get_item P i j = Fin 0"
    if "get_item C i j \<noteq> 0"
      "get_item C i j * matrix_sum lib C = row_sums lib C ! i * col_sums lib C ! j"
    for i j
  proof -
    from that(1) have "(i, j) \<in> set (nonzero C)" by (simp add: nonzero_iff[OF assms(2)])
    from pmi_finite[OF assms(1,2,3) this] have "row_sums lib C ! i * col_sums lib C ! j \<noteq> 0"
      by simp
    then have "?q i j = 1" using that(2) by simp
    then show ?thesis using v[OF that(1)] by simp
  qed
  show ?thesis using P g(3) n v a e z by blast
qed

theorem PPMI_entries_correct_witness:
  "\<exists>P. PPMI blocked_sums
          \<lparr>shape = (2, 2), entries = [((0, 0), 2), ((0, 1), 1), ((1, 0), 1)]\<rparr> = Inr P \<and>
       get_item P 0 0 = Fin 0 \<and> (0, 0) \<notin> fst ` set (entries P) \<and>
       get_item P 0 1 = Fin (ln (4 / 3)) \<and> get_item P 1 1 = Fin 0"
proof -
  define C :: "real csc_matrix" where
    "C = \<lparr>shape = (2, 2), entries = [((0, 0), 2), ((0, 1), 1), ((1, 0), 1)]\<rparr>"
  have c: "canonical C" and n: "nonnegative C" and ne: "nonzero C \<noteq> []"
    by (simp_all add: canonical_def nonnegative_def nonzero_def C_def)
  have g: "get_item C 0 0 = 2" "get_item C 0 1 = 1" "get_item C 1 1 = 0"
    by (simp_all add: get_item_def C_def)
  have s: "matrix_sum blocked_sums C = 4" "row_sums blocked_sums C ! 0 = 3"
    "col_sums blocked_sums C ! 0 = 3" "col_sums blocked_sums C ! 1 = 1"
    by (simp_all add: matrix_sum_def row_sums_def col_sums_def blocked_sums_def
        blocked_sum_def f32_add_def upt_rec[of _ "numeral _"] C_def)
  from PPMI_entries_correct[OF float32_sums_blocked_sums c n ne] obtain P where
    P: "PPMI blocked_sums C = Inr P"
    and v: "\<And>i j. get_item C i j \<noteq> 0 \<Longrightarrow>
        get_item P i j = Fin (max 0 (ln (get_item C i j * matrix_sum blocked_sums C /
            (row_sums blocked_sums C ! i * col_sums blocked_sums C ! j))))"
    and a: "\<And>i j. get_item P i j = Fin 0 \<Longrightarrow> (i, j) \<notin> fst ` set (entries P)"
    and z: "\<And>i j. get_item C i j = 0 \<Longrightarrow> get_item P i j = Fin 0"
    by blast
  have p00: "get_item P 0 0 = Fin 0" using v[of 0 0, unfolded g s] by simp
  have p01: "get_item P 0 1 = Fin (ln (4 / 3))" using v[of 0 1, unfolded g s] by simp
  have p11: "get_item P 1 1 = Fin 0" using z[of 1 1, unfolded g] by simp
  show ?thesis using P p00 p01 p11 a[OF p00] unfolding C_def by blast
qed

text \<open>
  Claim C4. For every non-negative count matrix \<open>C\<close>, at every position \<open>(i, j)\<close>
  that \<^verbatim>\<open>PPMI\<close> examines (the positions of \<^verbatim>\<open>C.nonzero()\<close>) both marginals
  \<open>Zr[i]\<close> and \<open>Zc[j]\<close>, the \<^verbatim>\<open>float32\<close> sums of the library in whatever order it
  adds, are strictly positive, the divisor is not zero, the argument of the logarithm
  is strictly positive, and the PMI value is a finite number: the infinite and
  \<^verbatim>\<open>nan\<close> branches are not reached.
\<close>

theorem PPMI_log_argument_positive:
  assumes "float32_sums lib" and "canonical C" and "nonnegative C"
    and "(i, j) \<in> set (nonzero C)"
  shows "0 < row_sums lib C ! i \<and> 0 < col_sums lib C ! j \<and>
         snd (pmi_arg lib C (i, j)) \<noteq> 0 \<and>
         0 < fst (pmi_arg lib C (i, j)) / snd (pmi_arg lib C (i, j)) \<and>
         pmi lib C (i, j) = Fin (ln (fst (pmi_arg lib C (i, j)) / snd (pmi_arg lib C (i, j))))"
  using pmi_finite[OF assms] by (simp add: pmi_arg_def)

theorem PPMI_log_argument_positive_witness:
  "0 < row_sums blocked_sums
         \<lparr>shape = (2, 2), entries = [((0, 0), 2), ((0, 1), 1), ((1, 0), 1)]\<rparr> ! 0 \<and>
   0 < col_sums blocked_sums
         \<lparr>shape = (2, 2), entries = [((0, 0), 2), ((0, 1), 1), ((1, 0), 1)]\<rparr> ! 1 \<and>
   pmi blocked_sums
     \<lparr>shape = (2, 2), entries = [((0, 0), 2), ((0, 1), 1), ((1, 0), 1)]\<rparr> (0, 1)
     = Fin (ln (4 / 3))"
proof -
  define C :: "real csc_matrix" where
    "C = \<lparr>shape = (2, 2), entries = [((0, 0), 2), ((0, 1), 1), ((1, 0), 1)]\<rparr>"
  have c: "canonical C" and n: "nonnegative C" and m: "(0, 1) \<in> set (nonzero C)"
    by (simp_all add: canonical_def nonnegative_def nonzero_def C_def)
  have s: "pmi_arg blocked_sums C (0, 1) = (4, 3)"
    by (simp add: pmi_arg_def get_item_def matrix_sum_def row_sums_def col_sums_def
        blocked_sums_def blocked_sum_def f32_add_def upt_rec[of _ "numeral _"] C_def)
  from PPMI_log_argument_positive[OF float32_sums_blocked_sums c n m, unfolded s fst_conv snd_conv]
  show ?thesis unfolding C_def by blast
qed

text \<open>
  Claim C9 says that \<^verbatim>\<open>PPMI\<close> returns the all-zero matrix when the total mass is
  zero. The function has no case for \<open>Z = 0\<close>: on the all-zero matrix
  \<^verbatim>\<open>C.nonzero()\<close> is empty and the conversion of \<^verbatim>\<open>C[ii,jj]\<close> raises
  \<^verbatim>\<open>ValueError\<close>.
\<close>

theorem PPMI_zero_mass_counterexample:
  "PPMI blocked_sums (csc_matrix_empty (2, 2)) = Inl ValueError"
  by (simp add: PPMI_def nonzero_def csc_matrix_empty_def)

text \<open>
  Claim C9, amended. For a count matrix whose total mass \<open>Z\<close> is zero (in particular
  the all-zero matrix), \<^verbatim>\<open>PPMI\<close> examines no position, so no division takes place
  and no division error is raised; it does not return a matrix but raises
  \<^verbatim>\<open>ValueError\<close>.
\<close>

theorem PPMI_zero_mass:
  assumes "float32_sums lib" and "nonnegative C" and "matrix_sum lib C = 0"
  shows "nonzero C = [] \<and> PPMI lib C = Inl ValueError"
proof -
  have "v = 0" if "v \<in> set (map snd (entries C))" for v
  proof (rule ccontr)
    assume "v \<noteq> 0"
    moreover have nn: "\<forall>x\<in>set (map snd (entries C)). 0 \<le> x"
      using assms(2) by (auto simp: nonnegative_def list_all_iff)
    ultimately have "0 < v" using that by force
    moreover have "float32_sum (sum_all lib)" using assms(1) by (simp add: float32_sums_def)
    ultimately have "0 < sum_all lib (map snd (entries C))"
      using nn that by (intro rounded_sum_positive)
    then show False using assms(3) by (simp add: matrix_sum_def)
  qed
  then have "nonzero C = []"
    by (auto simp: nonzero_def filter_empty_conv)
  then show ?thesis by (simp add: PPMI_no_nonzero)
qed

theorem PPMI_zero_mass_witness:
  "PPMI blocked_sums \<lparr>shape = (2, 2), entries = [((0, 1), 0), ((1, 0), 0)]\<rparr>
     = Inl ValueError \<and>
   PPMI blocked_sums (csc_matrix_empty (3, 3)) = Inl ValueError"
  using PPMI_zero_mass[OF float32_sums_blocked_sums,
          of "\<lparr>shape = (2, 2), entries = [((0, 1), 0), ((1, 0), 0)]\<rparr>"]
    PPMI_zero_mass[OF float32_sums_blocked_sums, of "csc_matrix_empty (3, 3)"]
  by (simp add: nonnegative_def matrix_sum_def csc_matrix_empty_def blocked_sums_def
      blocked_sum_def f32_add_def)

section \<open>Properties of the SVD projection\<close>

lemma norm_rows_nth: "r < length Wv \<Longrightarrow> norm_rows Wv ! r = row_norm (Wv ! r)"
  by (simp add: norm_rows_def)

lemma divide_rows_nth:
  "r < length Wv \<Longrightarrow>
     divide_rows Wv (norm_rows Wv) ! r = map (\<lambda>x. np_divide x (row_norm (Wv ! r))) (Wv ! r)"
  by (simp add: divide_rows_def norm_rows_def)

lemma row_norm_zero: "row_norm row = 0 \<Longrightarrow> \<forall>x\<in>set row. x = 0"
proof -
  assume "row_norm row = 0"
  then have "sum_list (map (\<lambda>x. x * x) row) = 0"
    by (simp add: row_norm_def)
  moreover have "\<And>y. y \<in> set (map (\<lambda>x. x * x) row) \<Longrightarrow> 0 \<le> y" by auto
  ultimately have "\<forall>y\<in>set (map (\<lambda>x. x * x) row). y = 0"
    by (simp only: sum_list_nonneg_eq_0_iff)
  then show ?thesis by simp
qed

lemma row_norm_scaled:
  assumes "row_norm row \<noteq> 0"
  shows "row_norm (map (\<lambda>x. x / row_norm row) row) = 1"
proof -
  let ?n = "row_norm row" and ?s = "sum_list (map (\<lambda>x. x * x) row)"
  have s: "0 \<le> ?s" by (rule sum_list_nonneg) auto
  then have n2: "?n * ?n = ?s" by (simp add: row_norm_def)
  have "sum_list (map (\<lambda>x. (x / ?n) * (x / ?n)) row)
      = sum_list (map (\<lambda>x. (1 / (?n * ?n)) * (x * x)) row)"
    by (simp add: field_simps)
  also have "\<dots> = (1 / (?n * ?n)) * ?s"
    by (rule sum_list_const_mult)
  also have "\<dots> = 1" using assms by (simp add: n2[symmetric])
  finally show ?thesis by (simp add: row_norm_def[of "map _ _"] comp_def)
qed

text \<open>
  Claim C5 says that the division of a row of zero norm is guarded and that no
  \<^verbatim>\<open>nan\<close> is produced silently. \<^verbatim>\<open>SVD\<close> divides every row by its norm with no
  guard. For the matrix \<open>[[0, 0], [0, 1]]\<close> and \<open>d = 1\<close> the exact truncated
  decomposition has the rows \<open>[0]\<close> and \<open>[1]\<close>; the first is divided by zero and
  becomes \<^verbatim>\<open>nan\<close>, and the call returns.
\<close>

theorem SVD_zero_row_counterexample:
  "fst (SVD (\<lambda>X d. ([[0], [1]], [1 / 4]))
          \<lparr>shape = (2, 2), entries = [((1, 1), Fin 1)]\<rparr> 1) = [[NaN], [Fin 1]]"
  by (simp add: SVD_def divide_rows_def norm_rows_def row_norm_def np_divide_def)

text \<open>
  Claim C5, amended. For every input and every dimensionality, each row of the
  matrix returned by \<^verbatim>\<open>SVD\<close> whose norm before normalisation is not zero is that
  row divided by its norm and has Euclidean norm 1 (in exact arithmetic); a row whose
  norm before normalisation is zero is divided by zero with no guard: the call does
  not fail and every entry of the row is \<^verbatim>\<open>nan\<close>.
\<close>

theorem SVD_rows_normalised:
  assumes "r < length (fst (truncated_svd X d))"
  shows "(row_norm (fst (truncated_svd X d) ! r) \<noteq> 0 \<longrightarrow>
            fst (SVD truncated_svd X d) ! r =
              map (\<lambda>x. Fin (x / row_norm (fst (truncated_svd X d) ! r))) (fst (truncated_svd X d) ! r)
          \<and> row_norm (map (\<lambda>x. x / row_norm (fst (truncated_svd X d) ! r))
                         (fst (truncated_svd X d) ! r)) = 1)
       \<and> (row_norm (fst (truncated_svd X d) ! r) = 0 \<longrightarrow>
            fst (SVD truncated_svd X d) ! r = map (\<lambda>x. NaN) (fst (truncated_svd X d) ! r))"
proof -
  let ?row = "fst (truncated_svd X d) ! r"
  have e: "fst (SVD truncated_svd X d) ! r = map (\<lambda>x. np_divide x (row_norm ?row)) ?row"
    using assms by (simp add: SVD_def Let_def divide_rows_nth)
  have "fst (SVD truncated_svd X d) ! r = map (\<lambda>x. Fin (x / row_norm ?row)) ?row"
    if "row_norm ?row \<noteq> 0"
    using that by (simp add: e np_divide_def)
  moreover have "fst (SVD truncated_svd X d) ! r = map (\<lambda>x. NaN) ?row"
    if "row_norm ?row = 0"
    using that row_norm_zero[OF that] by (simp add: e np_divide_def)
  ultimately show ?thesis using row_norm_scaled by blast
qed

theorem SVD_rows_normalised_witness:
  "fst (SVD (\<lambda>X d. ([[0], [1]], [1 / 4])) \<lparr>shape = (2, 2), entries = [((1, 1), Fin 1)]\<rparr> 1) ! 0
      = [NaN] \<and>
   fst (SVD (\<lambda>X d. ([[0], [1]], [1 / 4])) \<lparr>shape = (2, 2), entries = [((1, 1), Fin 1)]\<rparr> 1) ! 1
      = [Fin 1]"
  using SVD_rows_normalised[of 0 "\<lambda>X d. ([[0], [1]], [1 / 4])"
          "\<lparr>shape = (2, 2), entries = [((1, 1), Fin 1)]\<rparr>" 1]
        SVD_rows_normalised[of 1 "\<lambda>X d. ([[0], [1]], [1 / 4])"
          "\<lparr>shape = (2, 2), entries = [((1, 1), Fin 1)]\<rparr>" 1]
  by (simp add: row_norm_def)

end
